theory Spec2Isabelle
  imports Main "HOL-Library.Sublist" "HOL-Library.AList" "HOL-Library.List_Lexorder"
begin

section \<open>Text, code points and Python's string primitives\<close>

text \<open>
  \<^verbatim>\<open>tools/translate_script.py\<close> works on Python \<^verbatim>\<open>str\<close> values: sequences of Unicode
  code points. A code point is a natural number and a text is a list of them, so that
  \<^verbatim>\<open>len\<close>, indexing and slicing count what Python counts. ASCII literals of the source
  are written through \<open>lit\<close>; the accented letters are given by their code points.
\<close>

type_synonym cp = nat
type_synonym str = "cp list"

definition lit :: "string \<Rightarrow> str" where
  "lit s = map of_char s"

definition SEMI :: cp where "SEMI = 59"
definition HASH :: cp where "HASH = 35"
definition LF :: cp where "LF = 10"
definition CR :: cp where "CR = 13"

text \<open>
  The character tables of the Python runtime (the Unicode database behind
  \<^verbatim>\<open>str.upper\<close>, \<^verbatim>\<open>str.lower\<close>, \<^verbatim>\<open>str.isupper\<close>, \<^verbatim>\<open>str.strip\<close> and the regular
  expression classes \<^verbatim>\<open>\w\<close> and \<^verbatim>\<open>\d\<close>) are not part of the repository. Every function
  that consults them takes them as the parameter \<open>U\<close>; the general theorems hold for
  every table. \<open>upper\<close> and \<open>lower\<close> map texts to texts, since Python's full case mapping
  may change the length (\<^verbatim>\<open>'\xdf'.upper() == 'SS'\<close>); \<open>isupper\<close> is \<^verbatim>\<open>str.isupper\<close> on a
  text of one character, the only use the source makes of it (\<^verbatim>\<open>w[0].isupper()\<close>).
\<close>

record ucd =
  isalnum :: "cp \<Rightarrow> bool"
  isdecimal :: "cp \<Rightarrow> bool"
  isspace :: "cp \<Rightarrow> bool"
  isupper :: "cp \<Rightarrow> bool"
  lower :: "str \<Rightarrow> str"
  upper :: "str \<Rightarrow> str"

text \<open>\<^verbatim>\<open>s.strip()\<close>: leading and trailing whitespace removed.\<close>

definition strip :: "ucd \<Rightarrow> str \<Rightarrow> str" where
  "strip U s = rev (dropWhile (isspace U) (rev (dropWhile (isspace U) s)))"

text \<open>\<^verbatim>\<open>s.split(sep)\<close> for a one-character separator: an empty text gives one empty part.\<close>

fun split_all :: "cp \<Rightarrow> str \<Rightarrow> str list" where
  "split_all sep [] = [[]]"
| "split_all sep (c # s) =
     (if c = sep then [] # split_all sep s
      else (case split_all sep s of
              [] \<Rightarrow> [[c]]
            | p # ps \<Rightarrow> (c # p) # ps))"

text \<open>\<^verbatim>\<open>s.split(sep, maxsplit)\<close>: at most \<open>maxsplit\<close> cuts, the rest stays whole.\<close>

fun split_max :: "cp \<Rightarrow> nat \<Rightarrow> str \<Rightarrow> str list" where
  "split_max sep 0 s = [s]"
| "split_max sep (Suc n) [] = [[]]"
| "split_max sep (Suc n) (c # s) =
     (if c = sep then [] # split_max sep n s
      else (case split_max sep (Suc n) s of
              [] \<Rightarrow> [[c]]
            | p # ps \<Rightarrow> (c # p) # ps))"

text \<open>\<^verbatim>\<open>sep.join(parts)\<close>.\<close>

fun join :: "str \<Rightarrow> str list \<Rightarrow> str" where
  "join sep [] = []"
| "join sep [p] = p"
| "join sep (p # q # ps) = p @ sep @ join sep (q # ps)"

section \<open>Header Locator\<close>

text \<open>
  \<^verbatim>\<open>
  def detect_spanish_header(cols):
      for i, c in enumerate(cols):
          if c.strip().upper() == 'SPANISH':
              return i
      if len(cols) > 5:
          return 5
      return None
  \<close>
  The loop over \<^verbatim>\<open>enumerate(cols)\<close> is \<open>find_spanish\<close>, carrying the index \<open>i\<close>.
\<close>

definition named_spanish :: "ucd \<Rightarrow> str \<Rightarrow> bool" where
  "named_spanish U c \<longleftrightarrow> upper U (strip U c) = lit ''SPANISH''"

fun find_spanish :: "ucd \<Rightarrow> nat \<Rightarrow> str list \<Rightarrow> nat option" where
  "find_spanish U i [] = None"
| "find_spanish U i (c # cols) =
     (if named_spanish U c then Some i else find_spanish U (Suc i) cols)"

definition detect_spanish_header :: "ucd \<Rightarrow> str list \<Rightarrow> nat option" where
  "detect_spanish_header U cols =
     (case find_spanish U 0 cols of
        Some i \<Rightarrow> Some i
      | None \<Rightarrow> if length cols > 5 then Some 5 else None)"

section \<open>Regular expressions\<close>

text \<open>
  The three patterns of the source are sequences of single-character classes, each
  taken once, with a greedy \<^verbatim>\<open>+\<close> or with a lazy \<^verbatim>\<open>*?\<close>, joined by at most one
  alternation. \<open>match_seq\<close> is the backtracking matcher of Python's \<^verbatim>\<open>re\<close> on this
  fragment: it returns, in the order the matcher tries them, the remainders of the text
  after each way to match the sequence at its start.
\<close>

datatype item = One "cp \<Rightarrow> bool" | Plus "cp \<Rightarrow> bool" | LazyStar "cp \<Rightarrow> bool"

type_synonym pattern = "item list list"

text \<open>The remainders after consuming 0, 1, 2, ... characters of the class \<open>p\<close>.\<close>

fun spans :: "(cp \<Rightarrow> bool) \<Rightarrow> str \<Rightarrow> str list" where
  "spans p [] = [[]]"
| "spans p (c # s) = (c # s) # (if p c then spans p s else [])"

fun match_seq :: "item list \<Rightarrow> str \<Rightarrow> str list" where
  "match_seq [] s = [s]"
| "match_seq (One p # r) s =
     (case s of [] \<Rightarrow> [] | c # s' \<Rightarrow> if p c then match_seq r s' else [])"
| "match_seq (LazyStar p # r) s = concat (map (match_seq r) (spans p s))"
| "match_seq (Plus p # r) s = concat (map (match_seq r) (rev (tl (spans p s))))"

definition match_alt :: "pattern \<Rightarrow> str \<Rightarrow> str list" where
  "match_alt pat s = concat (map (\<lambda>sq. match_seq sq s) pat)"

text \<open>\<^verbatim>\<open>pattern.search(text)\<close> as a truth value: a match starts at some position.\<close>

fun re_search :: "pattern \<Rightarrow> str \<Rightarrow> bool" where
  "re_search pat [] \<longleftrightarrow> match_alt pat [] \<noteq> []"
| "re_search pat (c # s) \<longleftrightarrow> match_alt pat (c # s) \<noteq> [] \<or> re_search pat s"

definition chr_is :: "cp \<Rightarrow> cp \<Rightarrow> bool" where
  "chr_is c x \<longleftrightarrow> x = c"

definition chr_not :: "cp \<Rightarrow> cp \<Rightarrow> bool" where
  "chr_not c x \<longleftrightarrow> x \<noteq> c"

definition literal :: "str \<Rightarrow> item list" where
  "literal s = map (\<lambda>c. One (chr_is c)) s"

text \<open>
  \<^verbatim>\<open>
  PLACEHOLDER_PATTERN = re.compile(r"\$[^\$]+\$|__PROTECTED_\d+__")
  BRACKET_PATTERN = re.compile(r"\[.*?\]")
  \<close>
  The dollar sign is U+0024, the brackets are U+005B and U+005D; without the
  \<^verbatim>\<open>DOTALL\<close> flag the dot matches every character but the line feed.
\<close>

definition PLACEHOLDER_PATTERN :: "ucd \<Rightarrow> pattern" where
  "PLACEHOLDER_PATTERN U =
     [ [One (chr_is 36), Plus (chr_not 36), One (chr_is 36)],
       literal (lit ''__PROTECTED_'') @ [Plus (isdecimal U)] @ literal (lit ''__'') ]"

definition BRACKET_PATTERN :: pattern where
  "BRACKET_PATTERN = [ [One (chr_is 91), LazyStar (chr_not LF), One (chr_is 93)] ]"

section \<open>Skip Classifier\<close>

text \<open>
  \<^verbatim>\<open>
  def should_skip(text):
      if not text:
          return True
      if '\\n' in text:
          return True
      if BRACKET_PATTERN.search(text):
          return True
      if PLACEHOLDER_PATTERN.search(text):
          return True
      return False
  \<close>
  \<^verbatim>\<open>'\\n'\<close> is the two characters backslash (U+005C) and \<^verbatim>\<open>n\<close> (U+006E).
\<close>

definition should_skip :: "ucd \<Rightarrow> str \<Rightarrow> bool" where
  "should_skip U txt \<longleftrightarrow>
     txt = [] \<or> sublist [92, 110] txt \<or> re_search BRACKET_PATTERN txt
     \<or> re_search (PLACEHOLDER_PATTERN U) txt"

section \<open>Word Substituter\<close>

datatype py_error = IndexError | ValueError | FileNotFoundError

datatype status = TRADUZIDO | IGNORADO | BLOQUEADO

text \<open>
  The dictionary display of the source, entry by entry in its order, repeated keys
  included. The accented letters are U+00ED as the second character of the key that
  maps to \<^verbatim>\<open>Sim\<close>, U+00E3 in the value of \<^verbatim>\<open>No\<close> and U+00F3 in the value of
  \<^verbatim>\<open>Siguiente\<close>.
\<close>

definition DICT_display :: "(str \<times> str) list" where
  "DICT_display =
     [ (lit ''Aceptar'', lit ''Aceitar''), (lit ''Aceptar.'', lit ''Aceitar.''),
       (lit ''Aceptar!'', lit ''Aceitar!''), (lit ''Aceptar?'', lit ''Aceitar?''),
       (lit ''Aceptar;'', lit ''Aceitar;''), (lit ''Aceptar,'', lit ''Aceitar,''),
       (lit ''Cancelar'', lit ''Cancelar''), ([83, 237], lit ''Sim''),
       (lit ''Si'', lit ''Se''), (lit ''No'', [78, 227, 111]),
       (lit ''Bienvenido'', lit ''Bem-vindo''), (lit ''Bienvenida'', lit ''Bem-vinda''),
       (lit ''Bienvenidos'', lit ''Bem-vindos''),
       (lit ''Cerrar'', lit ''Fechar''), (lit ''Abrir'', lit ''Abrir''),
       (lit ''Aceptar'', lit ''Aceitar''), (lit ''Aceptar'', lit ''Aceitar''),
       (lit ''Aceptar'', lit ''Aceitar''), (lit ''Reino'', lit ''Reino''),
       (lit ''Reyes'', lit ''Reis''), (lit ''Rey'', lit ''Rei''), (lit ''Reina'', lit ''Rainha''),
       (lit ''Hijos'', lit ''Filhos''), (lit ''Hijas'', lit ''Filhas''),
       (lit ''Hijo'', lit ''Filho''), (lit ''Hija'', lit ''Filha''),
       (lit ''Guardar'', lit ''Salvar''), (lit ''Cargar'', lit ''Carregar''),
       (lit ''Siguiente'', lit ''Pr'' @ [243] @ lit ''ximo''), (lit ''Anterior'', lit ''Anterior''),
       (lit ''Aceptar'', lit ''Aceitar''), (lit ''Aceptar'', lit ''Aceitar'') ]"

text \<open>
  A Python dictionary keeps its keys in the order of their first insertion, and a
  repeated key replaces the value in place: \<open>AList.update\<close> on an association list.
\<close>

definition DICT :: "(str \<times> str) list" where
  "DICT = foldl (\<lambda>d (k, v). AList.update k v d) [] DICT_display"

text \<open>
  \<^verbatim>\<open>
  def remove_leading_inverted_exclamation(text):
      if text.startswith('\<exclamdown>'):
          return text[1:]
      return text
  \<close>
  The character tested is U+00A1, the inverted exclamation mark.
\<close>

definition remove_leading_inverted_exclamation :: "str \<Rightarrow> str" where
  "remove_leading_inverted_exclamation txt =
     (if prefix [161] txt then drop 1 txt else txt)"

text \<open>
  \<^verbatim>\<open>
  def repl(match):
      w = match.group(0)
      if w in DICT:
          return DICT[w]
      lw = w.lower()
      for k, v in DICT.items():
          if k.lower() == lw:
              if w[0].isupper():
                  return v[0].upper() + v[1:]
              return v
      return w
  \<close>
  \<^verbatim>\<open>w[0]\<close> and \<^verbatim>\<open>v[0]\<close> raise \<^verbatim>\<open>IndexError\<close> on an empty string.
\<close>

definition repl :: "ucd \<Rightarrow> str \<Rightarrow> py_error + str" where
  "repl U w =
     (case map_of DICT w of
        Some v \<Rightarrow> Inr v
      | None \<Rightarrow>
          (case find (\<lambda>(k, v). lower U k = lower U w) DICT of
             Some (k, v) \<Rightarrow>
               (case w of
                  [] \<Rightarrow> Inl IndexError
                | w0 # _ \<Rightarrow>
                    if isupper U w0
                    then (case v of
                            [] \<Rightarrow> Inl IndexError
                          | v0 # vs \<Rightarrow> Inr (upper U [v0] @ vs))
                    else Inr v)
           | None \<Rightarrow> Inr w))"

text \<open>
  The token class \<^verbatim>\<open>[\w...]\<close> of the source: \<^verbatim>\<open>\w\<close> (alphanumeric or underscore) and
  the sixteen accented letters it lists, U+00C1, U+00C9, U+00CD, U+00D3, U+00DA,
  U+00E1, U+00E9, U+00ED, U+00F3, U+00FA, U+00D1, U+00F1, U+00DC, U+00FC, U+00E7, U+00C7.
\<close>

definition is_token_char :: "ucd \<Rightarrow> cp \<Rightarrow> bool" where
  "is_token_char U c \<longleftrightarrow>
     isalnum U c \<or> c = 95
     \<or> c \<in> set [193, 201, 205, 211, 218, 225, 233, 237, 243, 250, 209, 241, 220, 252, 231, 199]"

text \<open>
  \<^verbatim>\<open>re.sub(r"[...]+", f, text)\<close> for a pattern that is one class under a greedy \<^verbatim>\<open>+\<close>:
  the matches are the maximal runs of characters of the class, from left to right; each
  is replaced by what \<open>f\<close> returns for it, and an exception raised by \<open>f\<close> ends the call.
\<close>

function re_sub_plus :: "(cp \<Rightarrow> bool) \<Rightarrow> (str \<Rightarrow> py_error + str) \<Rightarrow> str \<Rightarrow> py_error + str" where
  "re_sub_plus p f [] = Inr []"
| "re_sub_plus p f (c # s) =
     (if p c
      then (case f (c # takeWhile p s) of
              Inl e \<Rightarrow> Inl e
            | Inr r \<Rightarrow>
                (case re_sub_plus p f (dropWhile p s) of
                   Inl e \<Rightarrow> Inl e
                 | Inr out \<Rightarrow> Inr (r @ out)))
      else (case re_sub_plus p f s of
              Inl e \<Rightarrow> Inl e
            | Inr out \<Rightarrow> Inr (c # out)))"
  by pat_completeness auto
termination
  by (relation "measure (\<lambda>(p, f, s). length s)")
     (auto simp: le_imp_less_Suc length_dropWhile_le)

text \<open>
  \<^verbatim>\<open>
  def translate_text(text):
      if should_skip(text):
          return text, 'BLOQUEADO'
      orig = text
      text = remove_leading_inverted_exclamation(text)
      ...
      translated = re.sub(r"[\w...]+", repl, text)
      status = 'TRADUZIDO' if translated != orig else 'IGNORADO'
      return translated, status
  \<close>
\<close>

definition translate_text :: "ucd \<Rightarrow> str \<Rightarrow> py_error + (str \<times> status)" where
  "translate_text U txt =
     (if should_skip U txt then Inr (txt, BLOQUEADO)
      else
        (case re_sub_plus (is_token_char U) (repl U)
                (remove_leading_inverted_exclamation txt) of
           Inl e \<Rightarrow> Inl e
         | Inr translated \<Rightarrow>
             Inr (translated, if translated \<noteq> txt then TRADUZIDO else IGNORADO)))"

section \<open>Line Rewriter\<close>

text \<open>
  The body of the loop over \<^verbatim>\<open>lines[1:]\<close> in \<^verbatim>\<open>process_file\<close>, for one line: the line
  to append to \<^verbatim>\<open>out_lines\<close>, and whether \<^verbatim>\<open>translated_count\<close> is incremented.
  \<^verbatim>\<open>
  if ln.startswith('#'):
      out_lines.append(ln); continue
  left_parts = ln.split(';', spanish_idx)
  if len(left_parts) < spanish_idx + 1:
      out_lines.append(ln); continue
  left = ';'.join(left_parts[:spanish_idx])
  rest = left_parts[spanish_idx]
  if ';' in rest:
      span, right = rest.split(';', 1)
      right = ';' + right
  else:
      span = rest
      right = ''
  new_span, status = translate_text(span)
  if status == 'TRADUZIDO':
      translated_count += 1
  if left:
      new_line = left + ';' + new_span + right
  else:
      new_line = new_span + right
  out_lines.append(new_line)
  \<close>
  The unpacking \<^verbatim>\<open>span, right = ...\<close> raises \<^verbatim>\<open>ValueError\<close> unless the split has two parts.
\<close>

definition rewrite_line :: "ucd \<Rightarrow> nat \<Rightarrow> str \<Rightarrow> py_error + (str \<times> bool)" where
  "rewrite_line U spanish_idx ln =
     (if prefix [HASH] ln then Inr (ln, False)
      else
        let left_parts = split_max SEMI spanish_idx ln in
        if length left_parts < spanish_idx + 1 then Inr (ln, False)
        else
          let left = join [SEMI] (take spanish_idx left_parts);
              rest = left_parts ! spanish_idx
          in (case (if SEMI \<in> set rest
                    then (case split_max SEMI 1 rest of
                            [span, right] \<Rightarrow> Inr (span, SEMI # right)
                          | _ \<Rightarrow> Inl ValueError)
                    else Inr (rest, [])) of
                Inl e \<Rightarrow> Inl e
              | Inr (span, right) \<Rightarrow>
                  (case translate_text U span of
                     Inl e \<Rightarrow> Inl e
                   | Inr (new_span, status) \<Rightarrow>
                       Inr (if left \<noteq> [] then left @ [SEMI] @ new_span @ right
                            else new_span @ right,
                            status = TRADUZIDO))))"

fun process_lines ::
  "ucd \<Rightarrow> nat \<Rightarrow> str list \<Rightarrow> str list \<times> nat \<Rightarrow> py_error + (str list \<times> nat)" where
  "process_lines U spanish_idx [] acc = Inr acc"
| "process_lines U spanish_idx (ln # lns) (out_lines, translated_count) =
     (case rewrite_line U spanish_idx ln of
        Inl e \<Rightarrow> Inl e
      | Inr (new_line, translated) \<Rightarrow>
          process_lines U spanish_idx lns
            (out_lines @ [new_line],
             if translated then translated_count + 1 else translated_count))"

section \<open>Files\<close>

text \<open>
  A file on disk is its size in bytes, as \<^verbatim>\<open>stat().st_size\<close> reports it, and its content
  as the UTF-8 decoder delivers it (with \<^verbatim>\<open>errors='replace'\<close> no input fails to
  decode). The directory maps names to files; it is an association list, so that it can
  be enumerated. Reading in text mode translates \<^verbatim>\<open>\r\n\<close> and \<^verbatim>\<open>\r\<close> to \<^verbatim>\<open>\n\<close>;
  \<^verbatim>\<open>str.splitlines\<close> then cuts at every line boundary of Python: U+000A to U+000D,
  U+001C to U+001E, U+0085, U+2028 and U+2029, a final boundary giving no empty last line.
\<close>

record fdata =
  st_size :: nat
  content :: str

type_synonym dir = "(str \<times> fdata) list"

fun universal_newlines :: "str \<Rightarrow> str" where
  "universal_newlines [] = []"
| "universal_newlines [c] = [if c = CR then LF else c]"
| "universal_newlines (c # d # s) =
     (if c = CR \<and> d = LF then LF # universal_newlines s
      else if c = CR then LF # universal_newlines (d # s)
      else c # universal_newlines (d # s))"

definition is_linebreak :: "cp \<Rightarrow> bool" where
  "is_linebreak c \<longleftrightarrow> c \<in> set [10, 11, 12, 13, 28, 29, 30, 133, 8232, 8233]"

fun splitlines_acc :: "str \<Rightarrow> str \<Rightarrow> str list" where
  "splitlines_acc cur [] = (if cur = [] then [] else [rev cur])"
| "splitlines_acc cur [c] = (if is_linebreak c then [rev cur] else [rev (c # cur)])"
| "splitlines_acc cur (c # d # s) =
     (if c = CR \<and> d = LF then rev cur # splitlines_acc [] s
      else if is_linebreak c then rev cur # splitlines_acc [] (d # s)
      else splitlines_acc (c # cur) (d # s))"

definition splitlines :: "str \<Rightarrow> str list" where
  "splitlines s = splitlines_acc [] s"

text \<open>The size of a text once encoded in UTF-8, for the files the program writes.\<close>

definition utf8_len :: "cp \<Rightarrow> nat" where
  "utf8_len c = (if c < 128 then 1 else if c < 2048 then 2 else if c < 65536 then 3 else 4)"

definition write_text :: "dir \<Rightarrow> str \<Rightarrow> str \<Rightarrow> dir" where
  "write_text d path s =
     AList.update path \<lparr> st_size = sum_list (map utf8_len s), content = s \<rparr> d"

section \<open>Processing one file\<close>

text \<open>
  \<^verbatim>\<open>
  def process_file(path: Path):
      with path.open('r', encoding='utf-8', errors='replace') as f:
          lines = f.read().splitlines()
      if not lines:
          return 'IGNORADO', 0
      header = lines[0]
      cols = header.split(';')
      spanish_idx = detect_spanish_header(cols)
      if spanish_idx is None:
          return 'IGNORADO', 0
      out_lines = [header]
      translated_count = 0
      for ln in lines[1:]:
          ...
      with path.open('w', encoding='utf-8', newline='') as f:
          f.write('\n'.join(out_lines) + '\n')
      return 'TRADUZIDO', translated_count
  \<close>
  \<open>process_text\<close> is the function between the read and the write: from the text read
  it gives the pair returned and the text written, \<open>None\<close> when the function returns
  before the file is opened for writing. \<open>process_file\<close> reads the path from the
  directory and applies the write to it.
\<close>

definition process_text :: "ucd \<Rightarrow> str \<Rightarrow> py_error + ((status \<times> nat) \<times> str option)" where
  "process_text U s =
     (case splitlines s of
        [] \<Rightarrow> Inr ((IGNORADO, 0), None)
      | header # data \<Rightarrow>
          (case detect_spanish_header U (split_all SEMI header) of
             None \<Rightarrow> Inr ((IGNORADO, 0), None)
           | Some spanish_idx \<Rightarrow>
               (case process_lines U spanish_idx data ([header], 0) of
                  Inl e \<Rightarrow> Inl e
                | Inr (out_lines, translated_count) \<Rightarrow>
                    Inr ((TRADUZIDO, translated_count),
                         Some (join [LF] out_lines @ [LF])))))"

definition process_file :: "ucd \<Rightarrow> dir \<Rightarrow> str \<Rightarrow> py_error + ((status \<times> nat) \<times> dir)" where
  "process_file U d path =
     (case map_of d path of
        None \<Rightarrow> Inl FileNotFoundError
      | Some f \<Rightarrow>
          (case process_text U (universal_newlines (content f)) of
             Inl e \<Rightarrow> Inl e
           | Inr (r, None) \<Rightarrow> Inr (r, d)
           | Inr (r, Some s) \<Rightarrow> Inr (r, write_text d path s)))"

section \<open>Batch Driver\<close>

text \<open>
  \<^verbatim>\<open>
  CSV_DIR = Path('.')
  LOG_FILE = CSV_DIR / 'translated_files_log.txt'

  def main():
      large_threshold = 10 * 1024
      results = []
      for file in sorted(CSV_DIR.glob('*.csv')):
          if file.name == LOG_FILE.name:
              continue
          size = file.stat().st_size
          if size <= large_threshold:
              continue
          status, count = process_file(file)
          results.append((file.name, 'SCRIPT', status))
      with LOG_FILE.open('w', encoding='utf-8') as lf:
          for name, method, status in results:
              lf.write(f"{name};{method};{status}\n")
      print(f"Processed {len(results)} files. Log: {LOG_FILE}")
  \<close>
  The glob gives the names of the directory that end in \<^verbatim>\<open>.csv\<close>; paths of one directory
  sort by their names, compared code point by code point. \<open>main\<close> returns the directory
  after the run and the list \<^verbatim>\<open>results\<close>; the printed summary is not modelled.
\<close>

definition LOG_FILE_name :: str where
  "LOG_FILE_name = lit ''translated_files_log.txt''"

definition large_threshold :: nat where
  "large_threshold = 10 * 1024"

definition glob_csv :: "dir \<Rightarrow> str list" where
  "glob_csv d = filter (suffix (lit ''.csv'')) (map fst d)"

definition status_name :: "status \<Rightarrow> str" where
  "status_name st =
     (case st of TRADUZIDO \<Rightarrow> lit ''TRADUZIDO''
               | IGNORADO \<Rightarrow> lit ''IGNORADO''
               | BLOQUEADO \<Rightarrow> lit ''BLOQUEADO'')"

type_synonym results = "(str \<times> str \<times> status) list"

fun main_loop :: "ucd \<Rightarrow> str list \<Rightarrow> dir \<times> results \<Rightarrow> py_error + (dir \<times> results)" where
  "main_loop U [] acc = Inr acc"
| "main_loop U (file # files) (d, results) =
     (if file = LOG_FILE_name then main_loop U files (d, results)
      else
        (case map_of d file of
           None \<Rightarrow> Inl FileNotFoundError
         | Some f \<Rightarrow>
             if st_size f \<le> large_threshold then main_loop U files (d, results)
             else
               (case process_file U d file of
                  Inl e \<Rightarrow> Inl e
                | Inr ((status, count), d') \<Rightarrow>
                    main_loop U files (d', results @ [(file, lit ''SCRIPT'', status)]))))"

definition log_text :: "results \<Rightarrow> str" where
  "log_text results =
     concat (map (\<lambda>(name, method, status).
                    name @ [SEMI] @ method @ [SEMI] @ status_name status @ [LF]) results)"

definition main :: "ucd \<Rightarrow> dir \<Rightarrow> py_error + (dir \<times> results)" where
  "main U d =
     (case main_loop U (sort (glob_csv d)) (d, []) of
        Inl e \<Rightarrow> Inl e
      | Inr (d', results) \<Rightarrow> Inr (write_text d' LOG_FILE_name (log_text results), results))"

section \<open>The character tables on Latin-1\<close>

text \<open>
  For evaluation on concrete inputs: Python's tables on U+0000 to U+00FF, the range
  that holds the dictionary, the header marker and the regular expressions of the source.
  Code points above U+00FF are outside this table (it leaves them uncased, and neither
  word characters nor whitespace); the concrete inputs below stay within Latin-1.
  \<^item> \<^verbatim>\<open>str.isalnum\<close>: digits, ASCII letters, the ordinal indicators U+00AA and U+00BA,
    the micro sign U+00B5, superscripts U+00B2, U+00B3, U+00B9, the vulgar fractions
    U+00BC to U+00BE and the letters U+00C0 to U+00FF except U+00D7 and U+00F7;
  \<^item> \<^verbatim>\<open>str.isspace\<close>: U+0009 to U+000D, U+001C to U+0020, U+0085, U+00A0;
  \<^item> upper case letters: A to Z, U+00C0 to U+00DE except U+00D7; \<^verbatim>\<open>lower\<close> adds 32 to
    them, \<^verbatim>\<open>upper\<close> subtracts 32 from a to z and U+00E0 to U+00FE except U+00F7;
  \<^item> \<^verbatim>\<open>upper\<close> leaves Latin-1 at three letters: U+00DF gives \<^verbatim>\<open>SS\<close>, U+00FF gives
    U+0178 and U+00B5 gives U+039C.
\<close>

definition l1_is_upper :: "cp \<Rightarrow> bool" where
  "l1_is_upper c \<longleftrightarrow> (65 \<le> c \<and> c \<le> 90) \<or> (192 \<le> c \<and> c \<le> 222 \<and> c \<noteq> 215)"

definition l1_has_upper :: "cp \<Rightarrow> bool" where
  "l1_has_upper c \<longleftrightarrow> (97 \<le> c \<and> c \<le> 122) \<or> (224 \<le> c \<and> c \<le> 254 \<and> c \<noteq> 247)"

definition l1_isalnum :: "cp \<Rightarrow> bool" where
  "l1_isalnum c \<longleftrightarrow>
     (48 \<le> c \<and> c \<le> 57) \<or> (65 \<le> c \<and> c \<le> 90) \<or> (97 \<le> c \<and> c \<le> 122)
     \<or> c = 170 \<or> c = 178 \<or> c = 179 \<or> c = 181 \<or> c = 185 \<or> c = 186
     \<or> c = 188 \<or> c = 189 \<or> c = 190
     \<or> (192 \<le> c \<and> c \<le> 255 \<and> c \<noteq> 215 \<and> c \<noteq> 247)"

definition l1_isdecimal :: "cp \<Rightarrow> bool" where
  "l1_isdecimal c \<longleftrightarrow> 48 \<le> c \<and> c \<le> 57"

definition l1_isspace :: "cp \<Rightarrow> bool" where
  "l1_isspace c \<longleftrightarrow> (9 \<le> c \<and> c \<le> 13) \<or> (28 \<le> c \<and> c \<le> 32) \<or> c = 133 \<or> c = 160"

definition l1_lower_cp :: "cp \<Rightarrow> cp" where
  "l1_lower_cp c = (if l1_is_upper c then c + 32 else c)"

definition l1_upper_cp :: "cp \<Rightarrow> str" where
  "l1_upper_cp c =
     (if l1_has_upper c then [c - 32]
      else if c = 223 then [83, 83]
      else if c = 255 then [376]
      else if c = 181 then [924]
      else [c])"

definition latin1 :: ucd where
  "latin1 = \<lparr> isalnum = l1_isalnum, isdecimal = l1_isdecimal, isspace = l1_isspace,
              isupper = l1_is_upper,
              lower = map l1_lower_cp,
              upper = (\<lambda>s. concat (map l1_upper_cp s)) \<rparr>"

section \<open>The words of the specification\<close>

text \<open>
  What a sequence of the fragment matches, stated on the matched text: the reference
  for the backtracking matcher.
\<close>

fun accepts :: "item list \<Rightarrow> str \<Rightarrow> bool" where
  "accepts [] w \<longleftrightarrow> w = []"
| "accepts (One p # r) w \<longleftrightarrow> (\<exists>c v. w = c # v \<and> p c \<and> accepts r v)"
| "accepts (LazyStar p # r) w \<longleftrightarrow> (\<exists>u v. w = u @ v \<and> list_all p u \<and> accepts r v)"
| "accepts (Plus p # r) w \<longleftrightarrow> (\<exists>u v. w = u @ v \<and> u \<noteq> [] \<and> list_all p u \<and> accepts r v)"

text \<open>
  The conditions of the Skip Classifier as the specification words them: the cell
  contains a substring enclosed in square brackets; a dollar-delimited placeholder (a
  dollar sign, one or more characters other than the dollar sign, a dollar sign); a
  protected-token marker \<^verbatim>\<open>__PROTECTED_<digits>__\<close> with at least one digit.
\<close>

definition spec_bracketed :: "str \<Rightarrow> bool" where
  "spec_bracketed txt \<longleftrightarrow> (\<exists>a b c. txt = a @ [91] @ b @ [93] @ c)"

definition spec_dollar_placeholder :: "str \<Rightarrow> bool" where
  "spec_dollar_placeholder txt \<longleftrightarrow>
     (\<exists>a b c. txt = a @ [36] @ b @ [36] @ c \<and> b \<noteq> [] \<and> 36 \<notin> set b)"

definition spec_protected_marker :: "ucd \<Rightarrow> str \<Rightarrow> bool" where
  "spec_protected_marker U txt \<longleftrightarrow>
     (\<exists>a ds c. txt = a @ lit ''__PROTECTED_'' @ ds @ lit ''__'' @ c
               \<and> ds \<noteq> [] \<and> list_all (isdecimal U) ds)"

definition spec_ineligible :: "ucd \<Rightarrow> str \<Rightarrow> bool" where
  "spec_ineligible U txt \<longleftrightarrow>
     txt = [] \<or> sublist [92, 110] txt \<or> spec_bracketed txt
     \<or> spec_dollar_placeholder txt \<or> spec_protected_marker U txt"

text \<open>
  The first step of the Word Substituter as the specification words it: one leading
  inverted question mark (U+00BF) or inverted exclamation mark (U+00A1) is stripped.
\<close>

definition spec_strip_leading_inverted :: "str \<Rightarrow> str" where
  "spec_strip_leading_inverted txt =
     (case txt of
        [] \<Rightarrow> []
      | c # r \<Rightarrow> if c = 161 \<or> c = 191 then r else txt)"

text \<open>
  The effect of the Batch Driver on one file, read off the file alone: whether it
  passes the size gate, the status that \<^verbatim>\<open>process_file\<close> returns for it, and the file
  that is on disk afterwards.
\<close>

definition passes_size_gate :: "dir \<Rightarrow> str \<Rightarrow> bool" where
  "passes_size_gate d path \<longleftrightarrow>
     (case map_of d path of None \<Rightarrow> False | Some f \<Rightarrow> large_threshold < st_size f)"

definition returned_status :: "ucd \<Rightarrow> fdata \<Rightarrow> status" where
  "returned_status U f =
     (case process_text U (universal_newlines (content f)) of
        Inl e \<Rightarrow> IGNORADO
      | Inr ((st, n), w) \<Rightarrow> st)"

definition file_after :: "ucd \<Rightarrow> fdata \<Rightarrow> fdata" where
  "file_after U f =
     (case process_text U (universal_newlines (content f)) of
        Inl e \<Rightarrow> f
      | Inr (r, None) \<Rightarrow> f
      | Inr (r, Some s) \<Rightarrow> \<lparr> st_size = sum_list (map utf8_len s), content = s \<rparr>)"

definition log_entry :: "ucd \<Rightarrow> dir \<Rightarrow> str \<Rightarrow> str \<times> str \<times> status" where
  "log_entry U d path =
     (path, lit ''SCRIPT'',
      case map_of d path of None \<Rightarrow> IGNORADO | Some f \<Rightarrow> returned_status U f)"

section \<open>Example directories\<close>

text \<open>
  Files just below and just above the size gate. The contents are ASCII, so the size
  in bytes is the number of characters: a header line, one data line and a comment
  line of number signs that pads the file to 10240 and to 10241 bytes; and a file of
  10241 bytes whose header has two columns, neither named \<^verbatim>\<open>SPANISH\<close>.
\<close>

definition ex_small :: fdata where
  "ex_small = \<lparr> st_size = 10240,
                content = lit ''KEY;SPANISH'' @ [LF] @ lit ''k;Rey'' @ [LF] @ replicate 10222 HASH \<rparr>"

definition ex_big :: fdata where
  "ex_big = \<lparr> st_size = 10241,
              content = lit ''KEY;SPANISH'' @ [LF] @ lit ''k;Rey'' @ [LF] @ replicate 10223 HASH \<rparr>"

definition ex_no_column :: fdata where
  "ex_no_column = \<lparr> st_size = 10241,
                    content = lit ''KEY;TEXT'' @ [LF] @ replicate 10232 HASH \<rparr>"

definition ex_dir :: dir where
  "ex_dir = [(lit ''small.csv'', ex_small), (lit ''big.csv'', ex_big)]"

definition ex_dir_no_column :: dir where
  "ex_dir_no_column = [(lit ''plain.csv'', ex_no_column)]"

section \<open>Properties of the Header Locator\<close>

lemma find_spanish_Some:
  "find_spanish U i cols = Some k \<Longrightarrow>
     i \<le> k \<and> k - i < length cols \<and> named_spanish U (cols ! (k - i))
     \<and> (\<forall>m < k - i. \<not> named_spanish U (cols ! m))"
proof (induction cols arbitrary: i)
  case Nil
  then show ?case by simp
next
  case (Cons c cols)
  show ?case
  proof (cases "named_spanish U c")
    case True
    with Cons.prems show ?thesis by simp
  next
    case False
    with Cons.prems have rec: "find_spanish U (Suc i) cols = Some k" by simp
    from Cons.IH [OF rec] have ik: "Suc i \<le> k" and len: "k - Suc i < length cols"
      and hit: "named_spanish U (cols ! (k - Suc i))"
      and least: "\<forall>m < k - Suc i. \<not> named_spanish U (cols ! m)" by auto
    from ik have step: "k - i = Suc (k - Suc i)" by arith
    have "\<forall>m < k - i. \<not> named_spanish U ((c # cols) ! m)"
    proof (intro allI impI)
      fix m assume m: "m < k - i"
      show "\<not> named_spanish U ((c # cols) ! m)"
      proof (cases m)
        case 0
        with False show ?thesis by simp
      next
        case (Suc m')
        with m step have "m' < k - Suc i" by arith
        with least Suc show ?thesis by simp
      qed
    qed
    with ik len hit step show ?thesis by simp
  qed
qed

lemma find_spanish_None:
  "find_spanish U i cols = None \<longleftrightarrow> (\<forall>c \<in> set cols. \<not> named_spanish U c)"
  by (induction cols arbitrary: i) auto

text \<open>
  C6. A header row, split on the semicolon, that has at least one column whose trimmed,
  upper-cased name is \<^verbatim>\<open>SPANISH\<close>: the Header Locator returns the zero-based index of
  such a column, not the positional fallback and not the no-column signal.
\<close>

theorem detect_spanish_header_finds_named_column:
  assumes "\<exists>c \<in> set (split_all SEMI header). named_spanish U c"
  shows "\<exists>i. detect_spanish_header U (split_all SEMI header) = Some i
           \<and> i < length (split_all SEMI header)
           \<and> named_spanish U (split_all SEMI header ! i)"
proof -
  let ?cols = "split_all SEMI header"
  from assms have "find_spanish U 0 ?cols \<noteq> None"
    by (simp add: find_spanish_None)
  then obtain k where k: "find_spanish U 0 ?cols = Some k" by auto
  from find_spanish_Some [OF k]
  have "k < length ?cols" and "named_spanish U (?cols ! k)" by auto
  with k show ?thesis by (simp add: detect_spanish_header_def)
qed

theorem detect_spanish_header_finds_named_column_witness:
  "(\<exists>c \<in> set (split_all SEMI (lit ''KEY;english; Spanish ;x'')). named_spanish latin1 c)
   \<and> (\<exists>i. detect_spanish_header latin1 (split_all SEMI (lit ''KEY;english; Spanish ;x'')) = Some i
          \<and> i < length (split_all SEMI (lit ''KEY;english; Spanish ;x''))
          \<and> named_spanish latin1 (split_all SEMI (lit ''KEY;english; Spanish ;x'') ! i))"
proof -
  have h: "\<exists>c \<in> set (split_all SEMI (lit ''KEY;english; Spanish ;x'')). named_spanish latin1 c"
    by code_simp
  from detect_spanish_header_finds_named_column [OF h] h show ?thesis by blast
qed

text \<open>
  C9. When more than one column of the header row has the trimmed, upper-cased name
  \<^verbatim>\<open>SPANISH\<close> (here the columns \<open>i\<close> and \<open>j\<close>), the Header Locator returns the smallest
  index of such a column: the column it returns is named \<^verbatim>\<open>SPANISH\<close> and no column to
  its left is.
\<close>

theorem detect_spanish_header_leftmost:
  assumes "i < j" and "j < length cols"
    and "named_spanish U (cols ! i)" and "named_spanish U (cols ! j)"
  shows "\<exists>k. detect_spanish_header U cols = Some k \<and> k \<le> i
           \<and> named_spanish U (cols ! k)
           \<and> (\<forall>m < k. \<not> named_spanish U (cols ! m))"
proof -
  from assms have "cols ! i \<in> set cols" by simp
  with assms(3) have "find_spanish U 0 cols \<noteq> None"
    by (auto simp: find_spanish_None)
  then obtain k where k: "find_spanish U 0 cols = Some k" by auto
  from find_spanish_Some [OF k]
  have hit: "named_spanish U (cols ! k)"
    and least: "\<forall>m < k. \<not> named_spanish U (cols ! m)" by auto
  from least assms(3) have "k \<le> i" by (meson not_le)
  with k hit least show ?thesis by (simp add: detect_spanish_header_def)
qed

theorem detect_spanish_header_leftmost_witness:
  "detect_spanish_header latin1 (split_all SEMI (lit ''k;SPANISH;x;spanish'')) = Some 1"
proof -
  let ?cols = "split_all SEMI (lit ''k;SPANISH;x;spanish'')"
  have a: "(1::nat) < 3" and b: "3 < length ?cols"
    and c: "named_spanish latin1 (?cols ! 1)" and d: "named_spanish latin1 (?cols ! 3)"
    and e: "\<not> named_spanish latin1 (?cols ! 0)"
    by code_simp+
  from detect_spanish_header_leftmost [OF a b c d]
  obtain k where k: "detect_spanish_header latin1 ?cols = Some k" and le: "k \<le> 1"
    and hit: "named_spanish latin1 (?cols ! k)" by blast
  from le hit e have "k = 1" by (cases k) auto
  with k show ?thesis by simp
qed

section \<open>Evaluation on concrete inputs\<close>

text \<open>The dictionary after the display is evaluated: 27 keys, in insertion order.\<close>

lemma DICT_eval:
  "DICT = [([65, 99, 101, 112, 116, 97, 114], [65, 99, 101, 105, 116, 97, 114]),
       ([65, 99, 101, 112, 116, 97, 114, 46], [65, 99, 101, 105, 116, 97, 114, 46]),
       ([65, 99, 101, 112, 116, 97, 114, 33], [65, 99, 101, 105, 116, 97, 114, 33]),
       ([65, 99, 101, 112, 116, 97, 114, 63], [65, 99, 101, 105, 116, 97, 114, 63]),
       ([65, 99, 101, 112, 116, 97, 114, 59], [65, 99, 101, 105, 116, 97, 114, 59]),
       ([65, 99, 101, 112, 116, 97, 114, 44], [65, 99, 101, 105, 116, 97, 114, 44]),
       ([67, 97, 110, 99, 101, 108, 97, 114], [67, 97, 110, 99, 101, 108, 97, 114]),
       ([83, 237], [83, 105, 109]),
       ([83, 105], [83, 101]),
       ([78, 111], [78, 227, 111]),
       ([66, 105, 101, 110, 118, 101, 110, 105, 100, 111], [66, 101, 109, 45, 118, 105, 110, 100, 111]),
       ([66, 105, 101, 110, 118, 101, 110, 105, 100, 97], [66, 101, 109, 45, 118, 105, 110, 100, 97]),
       ([66, 105, 101, 110, 118, 101, 110, 105, 100, 111, 115], [66, 101, 109, 45, 118, 105, 110, 100, 111, 115]),
       ([67, 101, 114, 114, 97, 114], [70, 101, 99, 104, 97, 114]),
       ([65, 98, 114, 105, 114], [65, 98, 114, 105, 114]),
       ([82, 101, 105, 110, 111], [82, 101, 105, 110, 111]),
       ([82, 101, 121, 101, 115], [82, 101, 105, 115]),
       ([82, 101, 121], [82, 101, 105]),
       ([82, 101, 105, 110, 97], [82, 97, 105, 110, 104, 97]),
       ([72, 105, 106, 111, 115], [70, 105, 108, 104, 111, 115]),
       ([72, 105, 106, 97, 115], [70, 105, 108, 104, 97, 115]),
       ([72, 105, 106, 111], [70, 105, 108, 104, 111]),
       ([72, 105, 106, 97], [70, 105, 108, 104, 97]),
       ([71, 117, 97, 114, 100, 97, 114], [83, 97, 108, 118, 97, 114]),
       ([67, 97, 114, 103, 97, 114], [67, 97, 114, 114, 101, 103, 97, 114]),
       ([83, 105, 103, 117, 105, 101, 110, 116, 101], [80, 114, 243, 120, 105, 109, 111]),
       ([65, 110, 116, 101, 114, 105, 111, 114], [65, 110, 116, 101, 114, 105, 111, 114])]"
  by (simp add: DICT_def DICT_display_def lit_def)

lemmas eval_defs =
  lit_def SEMI_def HASH_def LF_def CR_def latin1_def l1_is_upper_def l1_has_upper_def
  l1_isalnum_def l1_isdecimal_def l1_isspace_def l1_lower_cp_def l1_upper_cp_def
  translate_text_def should_skip_def repl_def is_token_char_def DICT_eval
  remove_leading_inverted_exclamation_def BRACKET_PATTERN_def PLACEHOLDER_PATTERN_def
  match_alt_def literal_def chr_is_def chr_not_def rewrite_line_def sublist_code(3)

section \<open>Case-insensitive lookup\<close>

text \<open>
  C2. A token that misses the exact lookup and matches a key case-insensitively is
  replaced by the value with its first character upper-cased when the token starts with
  an upper case letter, and by a value that starts in lower case when the token does
  not. The first half is what the code does (\<^verbatim>\<open>REY\<close> gives \<^verbatim>\<open>Rei\<close>); for the second the
  code returns the value as the dictionary has it, and every value of the dictionary
  starts with a capital: the cell \<^verbatim>\<open>rey\<close> becomes \<^verbatim>\<open>Rei\<close>.
\<close>

theorem translate_text_lowercase_token_capitalised:
  "translate_text latin1 (lit ''rey'') = Inr (lit ''Rei'', TRADUZIDO)
   \<and> translate_text latin1 (lit ''REY'') = Inr (lit ''Rei'', TRADUZIDO)
   \<and> map_of DICT (lit ''rey'') = None \<and> \<not> isupper latin1 (hd (lit ''rey''))
   \<and> isupper latin1 (hd (lit ''Rei''))"
  by (simp add: eval_defs)

section \<open>Idempotence on dictionary values\<close>

lemma values_unchanged:
  "list_all (\<lambda>(k, v). translate_text latin1 v = Inr (v, IGNORADO)) DICT"
  unfolding DICT_eval list.pred_inject prod.case
  by (intro conjI TrueI) (simp_all add: eval_defs)

text \<open>
  C8. A cell that consists of a word present as a value of the translation dictionary
  comes out of the substituter unchanged, with the status \<^verbatim>\<open>IGNORADO\<close>; applying the
  substituter to that output again therefore gives the same once more. The values and
  the keys lie in Latin-1, where \<open>latin1\<close> is the table of the Python runtime.
\<close>

theorem translate_text_idempotent_on_values:
  assumes "v \<in> snd ` set DICT"
  shows "translate_text latin1 v = Inr (v, IGNORADO)"
proof -
  from assms obtain k where "(k, v) \<in> set DICT" by auto
  with values_unchanged show ?thesis
    by (auto simp: list_all_iff)
qed

theorem translate_text_idempotent_on_values_witness:
  "lit ''Rainha'' \<in> snd ` set DICT
   \<and> translate_text latin1 (lit ''Rainha'') = Inr (lit ''Rainha'', IGNORADO)"
proof -
  have h: "lit ''Rainha'' \<in> snd ` set DICT"
    by (simp add: DICT_eval lit_def)
  from translate_text_idempotent_on_values [OF h] h show ?thesis by simp
qed

section \<open>The empty file\<close>

lemma splitlines_acc_Nil: "splitlines_acc cur s = [] \<longleftrightarrow> cur = [] \<and> s = []"
  by (induction cur s rule: splitlines_acc.induct) auto

lemma universal_newlines_Nil: "universal_newlines s = [] \<longleftrightarrow> s = []"
  by (induction s rule: universal_newlines.induct) auto

lemma no_lines_iff_empty: "splitlines (universal_newlines s) = [] \<longleftrightarrow> s = []"
  by (simp add: splitlines_def splitlines_acc_Nil universal_newlines_Nil)

text \<open>
  C10. For a file whose content splits into zero lines, \<^verbatim>\<open>process_file\<close> returns the
  status \<^verbatim>\<open>IGNORADO\<close> with the count 0, nothing is written (the function between the
  read and the write gives no text to write), and the directory after the call is the
  directory before it. By \<open>no_lines_iff_empty\<close> these are the files of no content.
\<close>

theorem process_file_no_lines:
  assumes "map_of d path = Some f"
    and "splitlines (universal_newlines (content f)) = []"
  shows "process_text U (universal_newlines (content f)) = Inr ((IGNORADO, 0), None)
         \<and> process_file U d path = Inr ((IGNORADO, 0), d)"
  using assms by (simp add: process_text_def process_file_def)

theorem process_file_no_lines_witness:
  "process_file latin1 [(lit ''empty.csv'', \<lparr> st_size = 0, content = [] \<rparr>)] (lit ''empty.csv'')
     = Inr ((IGNORADO, 0), [(lit ''empty.csv'', \<lparr> st_size = 0, content = [] \<rparr>)])"
proof -
  let ?f = "\<lparr> st_size = 0, content = [] \<rparr>"
  have a: "map_of [(lit ''empty.csv'', ?f)] (lit ''empty.csv'') = Some ?f" by simp
  have b: "splitlines (universal_newlines (content ?f)) = []"
    by (simp add: splitlines_def)
  from process_file_no_lines [OF a b] show ?thesis by simp
qed

section \<open>The matcher against the matched texts\<close>

lemma spans_iff: "r \<in> set (spans p s) \<longleftrightarrow> (\<exists>u. s = u @ r \<and> list_all p u)"
proof (induction s)
  case Nil
  then show ?case by auto
next
  case (Cons c s)
  show ?case
  proof
    assume "r \<in> set (spans p (c # s))"
    then consider "r = c # s" | "p c" "r \<in> set (spans p s)"
      by (auto split: if_splits)
    then show "\<exists>u. c # s = u @ r \<and> list_all p u"
    proof cases
      case 1
      then have "c # s = [] @ r \<and> list_all p []" by simp
      then show ?thesis by blast
    next
      case 2
      with Cons.IH obtain u where "s = u @ r" "list_all p u" by auto
      with 2 have "c # s = (c # u) @ r \<and> list_all p (c # u)" by simp
      then show ?thesis by blast
    qed
  next
    assume "\<exists>u. c # s = u @ r \<and> list_all p u"
    then obtain u where u: "c # s = u @ r" "list_all p u" by auto
    show "r \<in> set (spans p (c # s))"
    proof (cases u)
      case Nil
      with u have "r = c # s" by simp
      then show ?thesis by simp
    next
      case (Cons x u')
      with u have "p c" "s = u' @ r" "list_all p u'" by auto
      with Cons.IH show ?thesis by auto
    qed
  qed
qed

lemma tl_spans_iff:
  "r \<in> set (tl (spans p s)) \<longleftrightarrow> (\<exists>u. s = u @ r \<and> u \<noteq> [] \<and> list_all p u)"
proof (cases s)
  case Nil
  then show ?thesis by simp
next
  case (Cons c s')
  show ?thesis
  proof
    assume "r \<in> set (tl (spans p s))"
    with Cons have "p c" "r \<in> set (spans p s')" by (auto split: if_splits)
    then obtain u where "s' = u @ r" "list_all p u" by (auto simp: spans_iff)
    with Cons \<open>p c\<close> have "s = (c # u) @ r \<and> c # u \<noteq> [] \<and> list_all p (c # u)" by simp
    then show "\<exists>u. s = u @ r \<and> u \<noteq> [] \<and> list_all p u" by blast
  next
    assume "\<exists>u. s = u @ r \<and> u \<noteq> [] \<and> list_all p u"
    then obtain u where u: "s = u @ r" "u \<noteq> []" "list_all p u" by auto
    then obtain x u' where "u = x # u'" by (cases u) auto
    with u Cons have "p c" "s' = u' @ r" "list_all p u'" by auto
    then have "r \<in> set (spans p s')" by (auto simp: spans_iff)
    with Cons \<open>p c\<close> show "r \<in> set (tl (spans p s))" by simp
  qed
qed

lemma match_seq_iff:
  "r \<in> set (match_seq items s) \<longleftrightarrow> (\<exists>w. s = w @ r \<and> accepts items w)"
proof (induction items s arbitrary: r rule: match_seq.induct)
  case (1 s)
  then show ?case by auto
next
  case (2 p r' s)
  show ?case
  proof (cases s)
    case Nil
    then show ?thesis by auto
  next
    case (Cons c s')
    show ?thesis
    proof (cases "p c")
      case True
      with Cons 2 have "r \<in> set (match_seq (One p # r') s) \<longleftrightarrow> (\<exists>w. s' = w @ r \<and> accepts r' w)"
        by simp
      also have "\<dots> \<longleftrightarrow> (\<exists>w. s = w @ r \<and> accepts (One p # r') w)"
        using Cons True by (auto simp: Cons_eq_append_conv)
      finally show ?thesis .
    next
      case False
      with Cons show ?thesis by (auto simp: Cons_eq_append_conv)
    qed
  qed
next
  case (3 p r' s)
  have "r \<in> set (match_seq (LazyStar p # r') s)
        \<longleftrightarrow> (\<exists>m \<in> set (spans p s). r \<in> set (match_seq r' m))" by simp
  also have "\<dots> \<longleftrightarrow> (\<exists>m \<in> set (spans p s). \<exists>w. m = w @ r \<and> accepts r' w)"
    using 3 by blast
  also have "\<dots> \<longleftrightarrow> (\<exists>u v. s = u @ v @ r \<and> list_all p u \<and> accepts r' v)"
    unfolding Bex_def spans_iff by blast
  also have "\<dots> \<longleftrightarrow> (\<exists>w. s = w @ r \<and> accepts (LazyStar p # r') w)"
  proof
    assume "\<exists>u v. s = u @ v @ r \<and> list_all p u \<and> accepts r' v"
    then obtain u v where uv: "s = u @ v @ r" "list_all p u" "accepts r' v" by blast
    then have "accepts (LazyStar p # r') (u @ v)"
      by (simp only: accepts.simps) blast
    with uv have "s = (u @ v) @ r \<and> accepts (LazyStar p # r') (u @ v)" by simp
    then show "\<exists>w. s = w @ r \<and> accepts (LazyStar p # r') w" by blast
  next
    assume "\<exists>w. s = w @ r \<and> accepts (LazyStar p # r') w"
    then obtain u v where "s = (u @ v) @ r" "list_all p u" "accepts r' v" by auto
    then have "s = u @ v @ r \<and> list_all p u \<and> accepts r' v" by simp
    then show "\<exists>u v. s = u @ v @ r \<and> list_all p u \<and> accepts r' v" by blast
  qed
  finally show ?case .
next
  case (4 p r' s)
  have "r \<in> set (match_seq (Plus p # r') s)
        \<longleftrightarrow> (\<exists>m \<in> set (tl (spans p s)). r \<in> set (match_seq r' m))" by simp
  also have "\<dots> \<longleftrightarrow> (\<exists>m \<in> set (tl (spans p s)). \<exists>w. m = w @ r \<and> accepts r' w)"
    using 4 by (metis set_rev)
  also have "\<dots> \<longleftrightarrow> (\<exists>u v. s = u @ v @ r \<and> u \<noteq> [] \<and> list_all p u \<and> accepts r' v)"
    unfolding Bex_def tl_spans_iff by blast
  also have "\<dots> \<longleftrightarrow> (\<exists>w. s = w @ r \<and> accepts (Plus p # r') w)"
  proof
    assume "\<exists>u v. s = u @ v @ r \<and> u \<noteq> [] \<and> list_all p u \<and> accepts r' v"
    then obtain u v where uv: "s = u @ v @ r" "u \<noteq> []" "list_all p u" "accepts r' v"
      by blast
    then have "accepts (Plus p # r') (u @ v)"
      by (simp only: accepts.simps) blast
    with uv have "s = (u @ v) @ r \<and> accepts (Plus p # r') (u @ v)" by simp
    then show "\<exists>w. s = w @ r \<and> accepts (Plus p # r') w" by blast
  next
    assume "\<exists>w. s = w @ r \<and> accepts (Plus p # r') w"
    then obtain u v where "s = (u @ v) @ r" "u \<noteq> []" "list_all p u" "accepts r' v" by auto
    then have "s = u @ v @ r \<and> u \<noteq> [] \<and> list_all p u \<and> accepts r' v" by simp
    then show "\<exists>u v. s = u @ v @ r \<and> u \<noteq> [] \<and> list_all p u \<and> accepts r' v" by blast
  qed
  finally show ?case .
qed


lemma match_alt_nonempty:
  "match_alt pat s \<noteq> [] \<longleftrightarrow> (\<exists>w b. s = w @ b \<and> (\<exists>sq \<in> set pat. accepts sq w))"
proof -
  have "match_alt pat s \<noteq> [] \<longleftrightarrow> (\<exists>r. r \<in> set (match_alt pat s))"
    by (cases "match_alt pat s") auto
  also have "\<dots> \<longleftrightarrow> (\<exists>r. \<exists>sq \<in> set pat. r \<in> set (match_seq sq s))"
    by (auto simp: match_alt_def)
  also have "\<dots> \<longleftrightarrow> (\<exists>w b. s = w @ b \<and> (\<exists>sq \<in> set pat. accepts sq w))"
    by (simp only: match_seq_iff) blast
  finally show ?thesis .
qed

lemma re_search_iff:
  "re_search pat s \<longleftrightarrow> (\<exists>a w b. s = a @ w @ b \<and> (\<exists>sq \<in> set pat. accepts sq w))"
proof (induction s)
  case Nil
  show ?case by (simp add: match_alt_nonempty)
next
  case (Cons c s)
  show ?case
  proof
    assume "re_search pat (c # s)"
    then consider "match_alt pat (c # s) \<noteq> []" | "re_search pat s" by auto
    then show "\<exists>a w b. c # s = a @ w @ b \<and> (\<exists>sq \<in> set pat. accepts sq w)"
    proof cases
      case 1
      then obtain w b where "c # s = [] @ w @ b" "\<exists>sq \<in> set pat. accepts sq w"
        by (auto simp: match_alt_nonempty)
      then show ?thesis by blast
    next
      case 2
      with Cons.IH obtain a w b where "s = a @ w @ b" "\<exists>sq \<in> set pat. accepts sq w"
        by blast
      then have "c # s = (c # a) @ w @ b \<and> (\<exists>sq \<in> set pat. accepts sq w)" by simp
      then show ?thesis by blast
    qed
  next
    assume "\<exists>a w b. c # s = a @ w @ b \<and> (\<exists>sq \<in> set pat. accepts sq w)"
    then obtain a w b where awb: "c # s = a @ w @ b" "\<exists>sq \<in> set pat. accepts sq w"
      by blast
    show "re_search pat (c # s)"
    proof (cases a)
      case Nil
      with awb have "match_alt pat (c # s) \<noteq> []"
        by (simp only: match_alt_nonempty append_Nil) blast
      then show ?thesis by simp
    next
      case (Cons x a')
      with awb have "s = a' @ w @ b" by simp
      with awb(2) Cons.IH have "re_search pat s" by blast
      then show ?thesis by simp
    qed
  qed
qed

lemma accepts_literal:
  "accepts (literal l @ items) w \<longleftrightarrow> (\<exists>v. w = l @ v \<and> accepts items v)"
  by (induction l arbitrary: w) (auto simp: literal_def chr_is_def)

lemma accepts_bracket:
  "accepts [One (chr_is 91), LazyStar (chr_not LF), One (chr_is 93)] w
     \<longleftrightarrow> (\<exists>b. w = [91] @ b @ [93] \<and> LF \<notin> set b)"
  by (auto simp: chr_is_def chr_not_def list_all_iff)

lemma accepts_dollar:
  "accepts [One (chr_is 36), Plus (chr_not 36), One (chr_is 36)] w
     \<longleftrightarrow> (\<exists>b. w = [36] @ b @ [36] \<and> b \<noteq> [] \<and> 36 \<notin> set b)"
  by (auto simp: chr_is_def chr_not_def list_all_iff)

lemma accepts_protected:
  "accepts (literal (lit ''__PROTECTED_'') @ [Plus (isdecimal U)] @ literal (lit ''__'')) w
     \<longleftrightarrow> (\<exists>ds. w = lit ''__PROTECTED_'' @ ds @ lit ''__'' \<and> ds \<noteq> [] \<and> list_all (isdecimal U) ds)"
proof -
  have tail: "\<And>v. accepts (literal (lit ''__'')) v \<longleftrightarrow> v = lit ''__''"
    using accepts_literal [of "lit ''__''" "[]"] by simp
  show ?thesis
    by (simp only: accepts_literal append_Cons append_Nil accepts.simps tail) blast
qed


section \<open>The Skip Classifier against the specification\<close>

lemma search_bracket:
  "re_search BRACKET_PATTERN txt \<longleftrightarrow> (\<exists>a b c. txt = a @ [91] @ b @ [93] @ c \<and> LF \<notin> set b)"
proof -
  have "re_search BRACKET_PATTERN txt
        \<longleftrightarrow> (\<exists>a w c. txt = a @ w @ c \<and> (\<exists>b. w = [91] @ b @ [93] \<and> LF \<notin> set b))"
    unfolding re_search_iff BRACKET_PATTERN_def
    by (simp only: list.set bex_simps accepts_bracket Bex_def insert_iff empty_iff simp_thms)
  also have "\<dots> \<longleftrightarrow> (\<exists>a b c. txt = a @ ([91] @ b @ [93]) @ c \<and> LF \<notin> set b)"
    by blast
  also have "\<dots> \<longleftrightarrow> (\<exists>a b c. txt = a @ [91] @ b @ [93] @ c \<and> LF \<notin> set b)"
    by simp
  finally show ?thesis .
qed

lemma search_placeholder:
  "re_search (PLACEHOLDER_PATTERN U) txt
     \<longleftrightarrow> spec_dollar_placeholder txt \<or> spec_protected_marker U txt"
proof -
  have "re_search (PLACEHOLDER_PATTERN U) txt
        \<longleftrightarrow> (\<exists>a w c. txt = a @ w @ c
               \<and> ((\<exists>b. w = [36] @ b @ [36] \<and> b \<noteq> [] \<and> 36 \<notin> set b)
                  \<or> (\<exists>ds. w = lit ''__PROTECTED_'' @ ds @ lit ''__'' \<and> ds \<noteq> []
                           \<and> list_all (isdecimal U) ds)))"
    unfolding re_search_iff PLACEHOLDER_PATTERN_def
    by (simp only: list.set bex_simps accepts_dollar accepts_protected insert_iff empty_iff
          simp_thms Bex_def ex_disj_distrib conj_disj_distribL conj_disj_distribR) 
  also have "\<dots> \<longleftrightarrow> (\<exists>a b c. txt = a @ ([36] @ b @ [36]) @ c \<and> b \<noteq> [] \<and> 36 \<notin> set b)
                \<or> (\<exists>a ds c. txt = a @ (lit ''__PROTECTED_'' @ ds @ lit ''__'') @ c \<and> ds \<noteq> []
                           \<and> list_all (isdecimal U) ds)"
    by blast
  also have "\<dots> \<longleftrightarrow> (\<exists>a b c. txt = a @ [36] @ b @ [36] @ c \<and> b \<noteq> [] \<and> 36 \<notin> set b)
                \<or> (\<exists>a ds c. txt = a @ lit ''__PROTECTED_'' @ ds @ lit ''__'' @ c \<and> ds \<noteq> []
                           \<and> list_all (isdecimal U) ds)"
    by (simp only: append_assoc)
  finally show ?thesis
    by (simp only: spec_dollar_placeholder_def spec_protected_marker_def)
qed

lemma should_skip_iff:
  assumes "LF \<notin> set txt"
  shows "should_skip U txt \<longleftrightarrow> spec_ineligible U txt"
proof -
  have "(\<exists>a b c. txt = a @ [91] @ b @ [93] @ c \<and> LF \<notin> set b) \<longleftrightarrow> spec_bracketed txt"
  proof
    assume "\<exists>a b c. txt = a @ [91] @ b @ [93] @ c \<and> LF \<notin> set b"
    then show "spec_bracketed txt" unfolding spec_bracketed_def by blast
  next
    assume "spec_bracketed txt"
    then obtain a b c where abc: "txt = a @ [91] @ b @ [93] @ c"
      unfolding spec_bracketed_def by blast
    with assms have "LF \<notin> set b" by auto
    with abc show "\<exists>a b c. txt = a @ [91] @ b @ [93] @ c \<and> LF \<notin> set b" by blast
  qed
  then show ?thesis
    by (simp only: should_skip_def spec_ineligible_def search_bracket search_placeholder)
qed

text \<open>
  The lines that \<^verbatim>\<open>splitlines\<close> returns hold no line boundary, so no cell cut from a
  line holds a line feed.
\<close>

lemma splitlines_acc_no_linebreak:
  assumes "\<forall>c \<in> set cur. \<not> is_linebreak c" and "ln \<in> set (splitlines_acc cur s)"
  shows "\<forall>c \<in> set ln. \<not> is_linebreak c"
  using assms
proof (induction cur s rule: splitlines_acc.induct)
  case (1 cur)
  from "1.prems"(2) have "ln = rev cur" by (simp split: if_splits)
  with "1.prems"(1) show ?case by simp
next
  case (2 cur c)
  from "2.prems"(2) consider "ln = rev cur" | "\<not> is_linebreak c" "ln = rev (c # cur)"
    by (auto split: if_splits)
  then show ?case using "2.prems"(1) by cases simp_all
next
  case (3 cur c d s)
  have empty: "\<forall>x \<in> set []. \<not> is_linebreak x" by simp
  show ?case
  proof (cases "c = CR \<and> d = LF")
    case True
    then have "splitlines_acc cur (c # d # s) = rev cur # splitlines_acc [] s"
      by simp
    with "3.prems"(2) consider "ln = rev cur" | "ln \<in> set (splitlines_acc [] s)"
      by auto
    then show ?thesis
    proof cases
      case 1
      with "3.prems"(1) show ?thesis by simp
    next
      case 2
      from "3.IH"(1) [OF True empty 2] show ?thesis .
    qed
  next
    case False
    show ?thesis
    proof (cases "is_linebreak c")
      case True
      from False True
      have "splitlines_acc cur (c # d # s) = rev cur # splitlines_acc [] (d # s)"
        by auto
      with "3.prems"(2)
      consider "ln = rev cur" | "ln \<in> set (splitlines_acc [] (d # s))"
        by auto
      then show ?thesis
      proof cases
        case 1
        with "3.prems"(1) show ?thesis by simp
      next
        case 2
        from "3.IH"(2) [OF False True empty 2] show ?thesis .
      qed
    next
      case nb: False
      from False have "splitlines_acc cur (c # d # s) = splitlines_acc (c # cur) (d # s)"
        using nb by auto
      with "3.prems"(2) have mem: "ln \<in> set (splitlines_acc (c # cur) (d # s))"
        by simp
      from nb "3.prems"(1) have "\<forall>x \<in> set (c # cur). \<not> is_linebreak x" by simp
      from "3.IH"(3) [OF False nb this mem] show ?thesis .
    qed
  qed
qed

lemma line_has_no_line_feed: "ln \<in> set (splitlines s) \<Longrightarrow> LF \<notin> set ln"
proof -
  assume "ln \<in> set (splitlines s)"
  then have "ln \<in> set (splitlines_acc [] s)" by (simp only: splitlines_def)
  moreover have "\<forall>x \<in> set []. \<not> is_linebreak x" by simp
  ultimately have "\<forall>c \<in> set ln. \<not> is_linebreak c"
    by (rule splitlines_acc_no_linebreak [rotated])
  moreover have "is_linebreak LF" by (simp add: is_linebreak_def LF_def)
  ultimately show ?thesis by blast
qed

text \<open>
  C5. \<^verbatim>\<open>translate_text\<close> returns the status \<^verbatim>\<open>BLOQUEADO\<close> exactly when the cell is
  empty, contains the two characters backslash and \<^verbatim>\<open>n\<close>, contains a substring
  enclosed in square brackets, or contains a dollar-delimited placeholder or a marker
  \<^verbatim>\<open>__PROTECTED_<digits>__\<close>; in each of these cases the cell is returned as it was.
  A cell is part of one line of the file, so it holds no line feed
  (\<open>line_has_no_line_feed\<close>); on a text with a line feed between the brackets the dot
  of the bracket pattern would not match.
\<close>

theorem translate_text_blocked_iff:
  assumes "LF \<notin> set txt"
  shows "((\<exists>out. translate_text U txt = Inr (out, BLOQUEADO)) \<longleftrightarrow> spec_ineligible U txt)
         \<and> (spec_ineligible U txt \<longrightarrow> translate_text U txt = Inr (txt, BLOQUEADO))"
proof -
  have "(\<exists>out. translate_text U txt = Inr (out, BLOQUEADO)) \<longleftrightarrow> should_skip U txt"
    by (auto simp: translate_text_def split: sum.splits if_splits)
  moreover have "should_skip U txt \<longrightarrow> translate_text U txt = Inr (txt, BLOQUEADO)"
    by (simp add: translate_text_def)
  ultimately show ?thesis
    using should_skip_iff [OF assms] by simp
qed

theorem translate_text_blocked_iff_witness:
  "LF \<notin> set (lit ''[ICON] Guardar'')
   \<and> spec_ineligible latin1 (lit ''[ICON] Guardar'')
   \<and> translate_text latin1 (lit ''[ICON] Guardar'') = Inr (lit ''[ICON] Guardar'', BLOQUEADO)
   \<and> LF \<notin> set (lit ''Hola'')
   \<and> \<not> spec_ineligible latin1 (lit ''Hola'')
   \<and> translate_text latin1 (lit ''Hola'') = Inr (lit ''Hola'', IGNORADO)"
proof -
  have a: "LF \<notin> set (lit ''[ICON] Guardar'')" and b: "LF \<notin> set (lit ''Hola'')"
    by (simp_all add: lit_def LF_def)
  have c: "translate_text latin1 (lit ''[ICON] Guardar'') = Inr (lit ''[ICON] Guardar'', BLOQUEADO)"
    and d: "translate_text latin1 (lit ''Hola'') = Inr (lit ''Hola'', IGNORADO)"
    by (simp_all add: eval_defs)
  from translate_text_blocked_iff [OF a, of latin1] c
  have e: "spec_ineligible latin1 (lit ''[ICON] Guardar'')" by blast
  from translate_text_blocked_iff [OF b, of latin1] d
  have f: "\<not> spec_ineligible latin1 (lit ''Hola'')" by auto
  from a b c d e f show ?thesis by blast
qed

section \<open>The Word Substituter never raises\<close>

lemma DICT_values_nonempty: "(k, v) \<in> set DICT \<Longrightarrow> v \<noteq> []"
  unfolding DICT_eval by auto

lemma repl_total:
  assumes "w \<noteq> []"
  shows "\<exists>r. repl U w = Inr r"
proof (cases "map_of DICT w")
  case (Some v)
  then show ?thesis by (simp add: repl_def)
next
  case None
  show ?thesis
  proof (cases "find (\<lambda>(k, v). lower U k = lower U w) DICT")
    case None
    with \<open>map_of DICT w = None\<close> show ?thesis by (simp add: repl_def)
  next
    case (Some kv)
    obtain k v where kv: "kv = (k, v)" by (cases kv)
    from Some obtain i where "i < length DICT" "kv = DICT ! i"
      unfolding find_Some_iff by blast
    with kv have "(k, v) \<in> set DICT" by (metis nth_mem)
    then have "v \<noteq> []" by (rule DICT_values_nonempty)
    then obtain v0 vs where v: "v = v0 # vs" by (cases v) auto
    from assms obtain w0 ws where w: "w = w0 # ws" by (cases w) auto
    from Some kv \<open>map_of DICT w = None\<close> v w show ?thesis
      by (simp add: repl_def)
  qed
qed

lemma re_sub_plus_total:
  assumes "\<And>w. w \<noteq> [] \<Longrightarrow> \<exists>r. f w = Inr r"
  shows "\<exists>out. re_sub_plus p f s = Inr out"
  using assms
proof (induction p f s rule: re_sub_plus.induct)
  case (1 p f)
  show ?case by simp
next
  case (2 p f c s)
  note total = "2.prems"
  show ?case
  proof (cases "p c")
    case True
    have "c # takeWhile p s \<noteq> []" by simp
    from total [OF this] obtain r where r: "f (c # takeWhile p s) = Inr r" ..
    from "2.IH"(1) [OF True r total] obtain out
      where o: "re_sub_plus p f (dropWhile p s) = Inr out" by blast
    have "re_sub_plus p f (c # s) = Inr (r @ out)"
      by (simp only: re_sub_plus.simps True if_True r o sum.case)
    then show ?thesis ..
  next
    case False
    from "2.IH"(2) [OF False total] obtain out where o: "re_sub_plus p f s = Inr out"
      by blast
    have "re_sub_plus p f (c # s) = Inr (c # out)"
      by (simp only: re_sub_plus.simps False if_False o sum.case)
    then show ?thesis ..
  qed
qed

lemma translate_text_total: "\<exists>out st. translate_text U txt = Inr (out, st)"
proof (cases "should_skip U txt")
  case True
  then show ?thesis by (simp add: translate_text_def)
next
  case False
  from re_sub_plus_total [of "repl U", OF repl_total]
  obtain out where "re_sub_plus (is_token_char U) (repl U)
                      (remove_leading_inverted_exclamation txt) = Inr out"
    by blast
  with False show ?thesis by (simp add: translate_text_def)
qed


section \<open>The leading inverted mark\<close>

text \<open>
  C4, as amended. For every eligible cell the substituter strips one leading inverted
  exclamation mark (U+00A1) if the cell begins with one, and then substitutes the
  tokens; the status compares the result with the cell as it came in. The inverted
  question mark (U+00BF) is not stripped: it is not a word character, so a cell that
  begins with it comes out beginning with it.
\<close>

theorem translate_text_strips_exclamation_only:
  assumes "\<not> should_skip U txt"
  shows "\<exists>out. re_sub_plus (is_token_char U) (repl U)
                  (if prefix [161] txt then tl txt else txt) = Inr out
           \<and> translate_text U txt = Inr (out, if out \<noteq> txt then TRADUZIDO else IGNORADO)
           \<and> (prefix [191] txt \<and> \<not> is_token_char U 191 \<longrightarrow> prefix [191] out)"
proof -
  let ?arg = "if prefix [161] txt then tl txt else txt"
  have arg: "remove_leading_inverted_exclamation txt = ?arg"
    by (simp add: remove_leading_inverted_exclamation_def drop_Suc)
  from re_sub_plus_total [of "repl U", OF repl_total]
  obtain out where out: "re_sub_plus (is_token_char U) (repl U) ?arg = Inr out" by blast
  with assms arg
  have res: "translate_text U txt = Inr (out, if out \<noteq> txt then TRADUZIDO else IGNORADO)"
    by (simp add: translate_text_def)
  have "prefix [191] out" if q: "prefix [191] txt" and nt: "\<not> is_token_char U 191"
  proof -
    from q obtain r where r: "txt = 191 # r" by (cases "txt") auto
    with out have "re_sub_plus (is_token_char U) (repl U) (191 # r) = Inr out" by simp
    with nt show ?thesis by (auto split: sum.splits)
  qed
  with out res show ?thesis by blast
qed

theorem translate_text_strips_exclamation_only_witness:
  "\<not> should_skip latin1 ([191] @ lit ''Rey?'')
   \<and> prefix [191] ([191] @ lit ''Rey?'') \<and> \<not> is_token_char latin1 191
   \<and> translate_text latin1 ([191] @ lit ''Rey?'') = Inr ([191] @ lit ''Rei?'', TRADUZIDO)
   \<and> \<not> should_skip latin1 ([161] @ lit ''Rey!'')
   \<and> translate_text latin1 ([161] @ lit ''Rey!'') = Inr (lit ''Rei!'', TRADUZIDO)"
proof -
  let ?q = "[191] @ lit ''Rey?''" and ?e = "[161] @ lit ''Rey!''"
  have a: "\<not> should_skip latin1 ?q" and b: "\<not> should_skip latin1 ?e"
    and c: "prefix [191] ?q" "\<not> is_token_char latin1 191"
    by (simp_all add: eval_defs)
  from translate_text_strips_exclamation_only [OF a]
  obtain out where
    o: "re_sub_plus (is_token_char latin1) (repl latin1)
          (if prefix [161] ?q then tl ?q else ?q) = Inr out"
    and t: "translate_text latin1 ?q = Inr (out, if out \<noteq> ?q then TRADUZIDO else IGNORADO)"
    by blast
  from o have "out = [191] @ lit ''Rei?''" by (auto simp: eval_defs)
  with t have d: "translate_text latin1 ?q = Inr ([191] @ lit ''Rei?'', TRADUZIDO)"
    by (simp add: lit_def)
  from translate_text_strips_exclamation_only [OF b]
  obtain out' where
    o': "re_sub_plus (is_token_char latin1) (repl latin1)
           (if prefix [161] ?e then tl ?e else ?e) = Inr out'"
    and t': "translate_text latin1 ?e = Inr (out', if out' \<noteq> ?e then TRADUZIDO else IGNORADO)"
    by blast
  from o' have "out' = lit ''Rei!''" by (auto simp: eval_defs)
  with t' have e: "translate_text latin1 ?e = Inr (lit ''Rei!'', TRADUZIDO)"
    by (simp add: lit_def)
  from a b c d e show ?thesis by blast
qed

text \<open>
  C4, as the specification states it, fails: for a cell with a leading inverted question
  mark the code substitutes in the whole cell and keeps the mark, while substitution
  after the stripping of the specification gives the text without it.
\<close>

theorem inverted_question_mark_not_stripped:
  "\<not> should_skip latin1 ([191] @ lit ''Rey?'')
   \<and> translate_text latin1 ([191] @ lit ''Rey?'') = Inr ([191] @ lit ''Rei?'', TRADUZIDO)
   \<and> re_sub_plus (is_token_char latin1) (repl latin1)
        (spec_strip_leading_inverted ([191] @ lit ''Rey?'')) = Inr (lit ''Rei?'')"
  by (simp add: eval_defs spec_strip_leading_inverted_def)

section \<open>The Batch Driver never raises\<close>

lemma split_max_once:
  "SEMI \<in> set s \<Longrightarrow> \<exists>a b. split_max SEMI (Suc 0) s = [a, b]"
proof (induction s)
  case Nil
  then show ?case by simp
next
  case (Cons c s)
  show ?case
  proof (cases "c = SEMI")
    case True
    then show ?thesis by simp
  next
    case False
    with Cons.prems have "SEMI \<in> set s" by simp
    from Cons.IH [OF this] obtain a b where "split_max SEMI (Suc 0) s = [a, b]" by blast
    with False show ?thesis by simp
  qed
qed

lemma rewrite_line_total: "\<exists>new_line tr. rewrite_line U idx ln = Inr (new_line, tr)"
proof -
  have tt: "\<And>span. \<exists>out st. translate_text U span = Inr (out, st)"
    by (rule translate_text_total)
  show ?thesis
  proof (cases "prefix [HASH] ln \<or> length (split_max SEMI idx ln) < idx + 1")
    case True
    then show ?thesis by (auto simp: rewrite_line_def Let_def)
  next
    case False
    let ?rest = "split_max SEMI idx ln ! idx"
    show ?thesis
    proof (cases "SEMI \<in> set ?rest")
      case True
      from split_max_once [OF True] obtain a b where ab: "split_max SEMI 1 ?rest = [a, b]"
        by auto
      from tt [of a] obtain out st where "translate_text U a = Inr (out, st)" by blast
      with False True ab show ?thesis by (simp add: rewrite_line_def Let_def)
    next
      case nosemi: False
      from tt [of ?rest] obtain out st where "translate_text U ?rest = Inr (out, st)" by blast
      with False nosemi show ?thesis by (simp add: rewrite_line_def Let_def)
    qed
  qed
qed

lemma process_lines_total:
  "\<exists>out_lines n. process_lines U idx lns acc = Inr (out_lines, n)"
proof (induction lns arbitrary: acc)
  case Nil
  show ?case by (cases acc) simp
next
  case (Cons ln lns)
  obtain out0 n0 where acc: "acc = (out0, n0)" by (cases acc)
  from rewrite_line_total obtain new_line tr
    where rl: "rewrite_line U idx ln = Inr (new_line, tr)" by blast
  from Cons.IH [of "(out0 @ [new_line], if tr then n0 + 1 else n0)"] acc rl
  show ?case by simp
qed

lemma process_text_total: "\<exists>st n w. process_text U s = Inr ((st, n), w)"
proof (cases "splitlines s")
  case Nil
  then show ?thesis by (simp add: process_text_def)
next
  case (Cons header data)
  show ?thesis
  proof (cases "detect_spanish_header U (split_all SEMI header)")
    case None
    with Cons show ?thesis by (simp add: process_text_def)
  next
    case (Some idx)
    from process_lines_total obtain out_lines n
      where "process_lines U idx data ([header], 0) = Inr (out_lines, n)" by blast
    with Cons Some show ?thesis by (simp add: process_text_def)
  qed
qed

lemma process_file_effect:
  assumes "map_of d path = Some f"
  shows "\<exists>n d1. process_file U d path = Inr ((returned_status U f, n), d1)
           \<and> map fst d1 = map fst d
           \<and> map_of d1 = (map_of d)(path \<mapsto> file_after U f)"
proof -
  from process_text_total obtain st n w
    where pt: "process_text U (universal_newlines (content f)) = Inr ((st, n), w)" by blast
  then have st: "returned_status U f = st" by (simp add: returned_status_def)
  from assms have key: "path \<in> set (map fst d)"
    by (metis map_of_eq_None_iff option.distinct(1) set_map)
  show ?thesis
  proof (cases w)
    case None
    with pt have "file_after U f = f" by (simp add: file_after_def)
    with assms have "map_of d = (map_of d)(path \<mapsto> file_after U f)"
      by (simp add: fun_upd_idem)
    moreover from assms pt None st
    have "process_file U d path = Inr ((returned_status U f, n), d)"
      by (simp add: process_file_def)
    ultimately show ?thesis by blast
  next
    case (Some s)
    let ?g = "\<lparr> st_size = sum_list (map utf8_len s), content = s \<rparr>"
    from pt Some have fa: "file_after U f = ?g" by (simp add: file_after_def)
    from assms pt Some st
    have "process_file U d path = Inr ((returned_status U f, n), AList.update path ?g d)"
      by (simp add: process_file_def write_text_def)
    moreover from key have "map fst (AList.update path ?g d) = map fst d"
      by (simp add: update_keys)
    moreover have "map_of (AList.update path ?g d) = (map_of d)(path \<mapsto> file_after U f)"
      by (simp add: update_conv' fa)
    ultimately show ?thesis by blast
  qed
qed


section \<open>The loop of the Batch Driver\<close>

lemma map_of_in_keys: "p \<in> fst ` set d \<Longrightarrow> \<exists>f. map_of d p = Some f"
  by (cases "map_of d p") (auto simp: map_of_eq_None_iff)

lemma main_loop_effect:
  assumes "distinct ps" and "set ps \<subseteq> fst ` set d" and "LOG_FILE_name \<notin> set ps"
  shows "\<exists>d'. main_loop U ps (d, rs)
                 = Inr (d', rs @ map (log_entry U d) (filter (passes_size_gate d) ps))
           \<and> map fst d' = map fst d
           \<and> (\<forall>q. map_of d' q =
                    (if q \<in> set ps \<and> passes_size_gate d q
                     then map_option (file_after U) (map_of d q) else map_of d q))"
  using assms
proof (induction ps arbitrary: d rs)
  case Nil
  show ?case by simp
next
  case (Cons p ps)
  from Cons.prems have dist: "distinct ps" and notin: "p \<notin> set ps"
    and sub: "set ps \<subseteq> fst ` set d" and pin: "p \<in> fst ` set d"
    and nolog: "LOG_FILE_name \<notin> set ps" and plog: "p \<noteq> LOG_FILE_name" by auto
  from map_of_in_keys [OF pin] obtain f where f: "map_of d p = Some f" by blast
  show ?case
  proof (cases "large_threshold < st_size f")
    case False
    with f have gate: "\<not> passes_size_gate d p" by (simp add: passes_size_gate_def)
    from Cons.IH [OF dist sub nolog, of rs] obtain d'
      where run: "main_loop U ps (d, rs)
                    = Inr (d', rs @ map (log_entry U d) (filter (passes_size_gate d) ps))"
        and keys: "map fst d' = map fst d"
        and files: "\<forall>q. map_of d' q =
                      (if q \<in> set ps \<and> passes_size_gate d q
                       then map_option (file_after U) (map_of d q) else map_of d q)"
      by blast
    from False f plog run gate
    have "main_loop U (p # ps) (d, rs)
            = Inr (d', rs @ map (log_entry U d) (filter (passes_size_gate d) (p # ps)))"
      by simp
    moreover from files gate
    have "\<forall>q. map_of d' q =
                (if q \<in> set (p # ps) \<and> passes_size_gate d q
                 then map_option (file_after U) (map_of d q) else map_of d q)"
      by auto
    ultimately show ?thesis using keys by blast
  next
    case True
    with f have gate: "passes_size_gate d p" by (simp add: passes_size_gate_def)
    from process_file_effect [OF f] obtain n d1
      where pf: "process_file U d p = Inr ((returned_status U f, n), d1)"
        and keys1: "map fst d1 = map fst d"
        and files1: "map_of d1 = (map_of d)(p \<mapsto> file_after U f)" by blast
    from keys1 have "fst ` set d1 = fst ` set d" by (metis set_map)
    with sub have sub1: "set ps \<subseteq> fst ` set d1" by simp
    have same: "map_of d1 q = map_of d q" if "q \<in> set ps" for q
      using that notin files1 by auto
    have entries: "map (log_entry U d1) (filter (passes_size_gate d1) ps)
                     = map (log_entry U d) (filter (passes_size_gate d) ps)"
    proof -
      have "filter (passes_size_gate d1) ps = filter (passes_size_gate d) ps"
        by (rule filter_cong) (simp_all add: passes_size_gate_def same)
      moreover have "log_entry U d1 q = log_entry U d q" if "q \<in> set ps" for q
        using that by (simp add: log_entry_def same)
      then have "map (log_entry U d1) (filter (passes_size_gate d) ps)
                   = map (log_entry U d) (filter (passes_size_gate d) ps)"
        by (intro map_cong) auto
      ultimately show ?thesis by simp
    qed
    let ?e = "(p, lit ''SCRIPT'', returned_status U f)"
    from Cons.IH [OF dist sub1 nolog, of "rs @ [?e]"] obtain d'
      where run: "main_loop U ps (d1, rs @ [?e])
                    = Inr (d', (rs @ [?e]) @ map (log_entry U d1) (filter (passes_size_gate d1) ps))"
        and keys: "map fst d' = map fst d1"
        and files: "\<forall>q. map_of d' q =
                      (if q \<in> set ps \<and> passes_size_gate d1 q
                       then map_option (file_after U) (map_of d1 q) else map_of d1 q)"
      by blast
    have e: "log_entry U d p = ?e" using f by (simp add: log_entry_def)
    from True f plog pf run entries gate e
    have "main_loop U (p # ps) (d, rs)
            = Inr (d', rs @ map (log_entry U d) (filter (passes_size_gate d) (p # ps)))"
      by simp
    moreover have "map_of d' q =
                (if q \<in> set (p # ps) \<and> passes_size_gate d q
                 then map_option (file_after U) (map_of d q) else map_of d q)" for q
    proof (cases "q = p")
      case True
      with files notin have "map_of d' q = map_of d1 p" by simp
      with files1 f gate True show ?thesis by simp
    next
      case False
      with files1 have q1: "map_of d1 q = map_of d q" by simp
      then have "passes_size_gate d1 q = passes_size_gate d q"
        by (simp add: passes_size_gate_def)
      with files q1 False show ?thesis by simp
    qed
    ultimately show ?thesis using keys keys1 by auto
  qed
qed

lemma log_name_not_csv: "\<not> suffix (lit ''.csv'') LOG_FILE_name"
  by (simp add: suffix_to_prefix lit_def LOG_FILE_name_def)

lemma main_effect:
  assumes "distinct (map fst d)"
  shows "\<exists>d1. main U d = Inr (write_text d1 LOG_FILE_name
                                 (log_text (map (log_entry U d)
                                    (filter (passes_size_gate d) (sort (glob_csv d))))),
                               map (log_entry U d)
                                 (filter (passes_size_gate d) (sort (glob_csv d))))
           \<and> (\<forall>q. map_of d1 q =
                    (if suffix (lit ''.csv'') q \<and> passes_size_gate d q
                     then map_option (file_after U) (map_of d q) else map_of d q))"
proof -
  let ?ps = "sort (glob_csv d)"
  from assms have "distinct (glob_csv d)" by (simp add: glob_csv_def distinct_map_filter)
  then have dist: "distinct ?ps" by simp
  have sub: "set ?ps \<subseteq> fst ` set d" by (auto simp: glob_csv_def)
  have nolog: "LOG_FILE_name \<notin> set ?ps"
    using log_name_not_csv by (auto simp: glob_csv_def)
  from main_loop_effect [OF dist sub nolog, of U "[]"] obtain d1
    where run: "main_loop U ?ps (d, [])
                  = Inr (d1, map (log_entry U d) (filter (passes_size_gate d) ?ps))"
      and files: "\<forall>q. map_of d1 q =
                    (if q \<in> set ?ps \<and> passes_size_gate d q
                     then map_option (file_after U) (map_of d q) else map_of d q)"
    by auto
  have "q \<in> set ?ps \<and> passes_size_gate d q
          \<longleftrightarrow> suffix (lit ''.csv'') q \<and> passes_size_gate d q" for q
    by (auto simp: glob_csv_def passes_size_gate_def split: option.splits
             dest: map_of_SomeD intro: rev_image_eqI)
  with files have "\<forall>q. map_of d1 q =
                    (if suffix (lit ''.csv'') q \<and> passes_size_gate d q
                     then map_option (file_after U) (map_of d q) else map_of d q)"
    by simp
  with run show ?thesis by (auto simp: main_def)
qed

section \<open>The size gate and the log\<close>

lemma results_names:
  "map fst (map (log_entry U d) ps) = ps"
  by (induction ps) (simp_all add: log_entry_def)

lemma csv_in_glob:
  assumes "map_of d path = Some f" and "suffix (lit ''.csv'') path"
  shows "path \<in> set (sort (glob_csv d))" and "path \<noteq> LOG_FILE_name"
proof -
  from assms(1) have "path \<in> fst ` set d" by (metis map_of_SomeD fst_conv image_eqI)
  with assms(2) show "path \<in> set (sort (glob_csv d))" by (simp add: glob_csv_def)
  from assms(2) log_name_not_csv show "path \<noteq> LOG_FILE_name" by auto
qed

text \<open>
  C7. The size gate of the Batch Driver is strict. A \<^verbatim>\<open>.csv\<close> file of 10240 bytes or
  less is skipped: it gets no entry in \<^verbatim>\<open>results\<close> and is on disk afterwards as it
  was. A file of 10241 bytes or more is processed: \<^verbatim>\<open>results\<close> has its entry, with the
  status that \<^verbatim>\<open>process_file\<close> returns for it, and the file on disk afterwards is what
  \<^verbatim>\<open>process_file\<close> wrote, or the file as it was when \<^verbatim>\<open>process_file\<close> wrote nothing.
  The names of a directory are distinct.
\<close>

theorem size_gate_strict:
  assumes "distinct (map fst d)" and "map_of d path = Some f"
    and "suffix (lit ''.csv'') path"
  shows "\<exists>d' results. main U d = Inr (d', results)
           \<and> (st_size f \<le> 10240 \<longrightarrow>
                path \<notin> fst ` set results \<and> map_of d' path = Some f)
           \<and> (10241 \<le> st_size f \<longrightarrow>
                (\<exists>st n w. process_text U (universal_newlines (content f)) = Inr ((st, n), w)
                   \<and> (path, lit ''SCRIPT'', st) \<in> set results
                   \<and> map_of d' path =
                       Some (case w of
                               None \<Rightarrow> f
                             | Some s \<Rightarrow> \<lparr> st_size = sum_list (map utf8_len s), content = s \<rparr>)))"
proof -
  let ?ps = "filter (passes_size_gate d) (sort (glob_csv d))"
  let ?rs = "map (log_entry U d) ?ps"
  from main_effect [OF assms(1), of U] obtain d1
    where run: "main U d = Inr (write_text d1 LOG_FILE_name (log_text ?rs), ?rs)"
      and files: "\<forall>q. map_of d1 q =
                    (if suffix (lit ''.csv'') q \<and> passes_size_gate d q
                     then map_option (file_after U) (map_of d q) else map_of d q)"
    by blast
  let ?d' = "write_text d1 LOG_FILE_name (log_text ?rs)"
  from csv_in_glob [OF assms(2,3)]
  have inglob: "path \<in> set (sort (glob_csv d))" and nolog: "path \<noteq> LOG_FILE_name" .
  from nolog have after: "map_of ?d' path = map_of d1 path"
    by (simp add: write_text_def update_conv')
  have names: "fst ` set ?rs = set ?ps"
    using results_names [of U d ?ps] by (metis set_map)
  have small: "path \<notin> fst ` set ?rs \<and> map_of ?d' path = Some f" if "st_size f \<le> 10240"
  proof -
    from that assms(2) have gate: "\<not> passes_size_gate d path"
      by (simp add: passes_size_gate_def large_threshold_def)
    with names have "path \<notin> fst ` set ?rs" by simp
    moreover from gate files after assms(2) have "map_of ?d' path = Some f" by simp
    ultimately show ?thesis ..
  qed
  have big: "\<exists>st n w. process_text U (universal_newlines (content f)) = Inr ((st, n), w)
               \<and> (path, lit ''SCRIPT'', st) \<in> set ?rs
               \<and> map_of ?d' path =
                   Some (case w of
                           None \<Rightarrow> f
                         | Some s \<Rightarrow> \<lparr> st_size = sum_list (map utf8_len s), content = s \<rparr>)"
    if "10241 \<le> st_size f"
  proof -
    from that assms(2) have gate: "passes_size_gate d path"
      by (simp add: passes_size_gate_def large_threshold_def)
    from process_text_total obtain st n w
      where pt: "process_text U (universal_newlines (content f)) = Inr ((st, n), w)" by blast
    from pt have st: "returned_status U f = st" by (simp add: returned_status_def)
    from pt have fa: "file_after U f =
                        (case w of
                           None \<Rightarrow> f
                         | Some s \<Rightarrow> \<lparr> st_size = sum_list (map utf8_len s), content = s \<rparr>)"
      by (simp add: file_after_def split: option.splits)
    from gate inglob have "log_entry U d path \<in> set ?rs" by simp
    with assms(2) st have "(path, lit ''SCRIPT'', st) \<in> set ?rs"
      by (simp add: log_entry_def)
    moreover from gate files after assms(2,3) fa
    have "map_of ?d' path =
            Some (case w of
                    None \<Rightarrow> f
                  | Some s \<Rightarrow> \<lparr> st_size = sum_list (map utf8_len s), content = s \<rparr>)"
      by simp
    ultimately show ?thesis using pt by blast
  qed
  from run small big show ?thesis by blast
qed

text \<open>
  C3, as amended. The log has exactly one line for every \<^verbatim>\<open>.csv\<close> file above the size
  threshold, in the sorted order of the names and each name once; the files skipped
  for size are absent from it. A file above the threshold whose header lacks a
  locatable target column is among the logged ones: its line carries the status
  \<^verbatim>\<open>IGNORADO\<close>, and the file is not rewritten.
\<close>

theorem log_line_for_every_file_past_the_size_gate:
  assumes "distinct (map fst d)"
  shows "\<exists>d' results. main U d = Inr (d', results)
           \<and> map fst results = filter (passes_size_gate d) (sort (glob_csv d))
           \<and> distinct (map fst results)
           \<and> map_option content (map_of d' LOG_FILE_name) = Some (log_text results)
           \<and> (\<forall>path f header data.
                 map_of d path = Some f \<and> suffix (lit ''.csv'') path
                 \<and> large_threshold < st_size f
                 \<and> splitlines (universal_newlines (content f)) = header # data
                 \<and> detect_spanish_header U (split_all SEMI header) = None
                 \<longrightarrow> (path, lit ''SCRIPT'', IGNORADO) \<in> set results
                     \<and> map_of d' path = Some f)"
proof -
  let ?ps = "filter (passes_size_gate d) (sort (glob_csv d))"
  let ?rs = "map (log_entry U d) ?ps"
  from main_effect [OF assms, of U] obtain d1
    where run: "main U d = Inr (write_text d1 LOG_FILE_name (log_text ?rs), ?rs)"
      and files: "\<forall>q. map_of d1 q =
                    (if suffix (lit ''.csv'') q \<and> passes_size_gate d q
                     then map_option (file_after U) (map_of d q) else map_of d q)"
    by blast
  let ?d' = "write_text d1 LOG_FILE_name (log_text ?rs)"
  have names: "map fst ?rs = ?ps" by (rule results_names)
  from assms have "distinct (glob_csv d)" by (simp add: glob_csv_def distinct_map_filter)
  then have "distinct ?ps" by simp
  with names have dist: "distinct (map fst ?rs)" by (simp only:)
  have log: "map_option content (map_of ?d' LOG_FILE_name) = Some (log_text ?rs)"
    by (simp add: write_text_def update_conv')
  have miss: "(path, lit ''SCRIPT'', IGNORADO) \<in> set ?rs \<and> map_of ?d' path = Some f"
    if f: "map_of d path = Some f" and csv: "suffix (lit ''.csv'') path"
      and size: "large_threshold < st_size f"
      and lines: "splitlines (universal_newlines (content f)) = header # data"
      and none: "detect_spanish_header U (split_all SEMI header) = None"
    for path f header data
  proof -
    from lines none
    have pt: "process_text U (universal_newlines (content f)) = Inr ((IGNORADO, 0), None)"
      by (simp add: process_text_def)
    then have st: "returned_status U f = IGNORADO" and fa: "file_after U f = f"
      by (simp_all add: returned_status_def file_after_def)
    from f size have gate: "passes_size_gate d path" by (simp add: passes_size_gate_def)
    from csv_in_glob [OF f csv]
    have inglob: "path \<in> set (sort (glob_csv d))" and nolog: "path \<noteq> LOG_FILE_name" .
    from gate inglob have "log_entry U d path \<in> set ?rs" by simp
    with f st have "(path, lit ''SCRIPT'', IGNORADO) \<in> set ?rs" by (simp add: log_entry_def)
    moreover from nolog have "map_of ?d' path = map_of d1 path"
      by (simp add: write_text_def update_conv')
    with files gate csv f fa have "map_of ?d' path = Some f" by simp
    ultimately show ?thesis ..
  qed
  from run names dist log miss show ?thesis by blast
qed


section \<open>The example directories\<close>

lemma universal_newlines_id: "CR \<notin> set s \<Longrightarrow> universal_newlines s = s"
  by (induction s rule: universal_newlines.induct) auto

lemma splitlines_acc_last:
  "\<forall>c \<in> set a. \<not> is_linebreak c \<Longrightarrow> a \<noteq> [] \<Longrightarrow> splitlines_acc cur a = [rev cur @ a]"
  by (induction cur a rule: splitlines_acc.induct) (auto simp: is_linebreak_def CR_def)

lemma splitlines_acc_line:
  "\<forall>c \<in> set a. \<not> is_linebreak c \<Longrightarrow>
     splitlines_acc cur (a @ LF # rest) = (rev cur @ a) # splitlines_acc [] rest"
proof (induction a arbitrary: cur)
  case Nil
  show ?case by (cases rest) (simp_all add: is_linebreak_def LF_def CR_def)
next
  case (Cons c a)
  then have c: "\<not> is_linebreak c" and a: "\<forall>x \<in> set a. \<not> is_linebreak x" by auto
  from c have ncr: "c \<noteq> CR" by (auto simp: is_linebreak_def CR_def)
  obtain x xs where next_char: "a @ LF # rest = x # xs" by (cases a) auto
  have "splitlines_acc cur ((c # a) @ LF # rest) = splitlines_acc (c # cur) (a @ LF # rest)"
    using c ncr by (simp add: next_char)
  with Cons.IH [OF a, of "c # cur"] show ?case by simp
qed

lemma plain_lit: "list_all (\<lambda>c. 32 \<le> c \<and> c < 127) s \<Longrightarrow> \<forall>c \<in> set s. \<not> is_linebreak c"
  by (auto simp: list_all_iff is_linebreak_def)

lemma lines_of_example:
  assumes "\<forall>c \<in> set h. \<not> is_linebreak c" and "\<forall>c \<in> set pad. c = HASH" and "pad \<noteq> []"
  shows "splitlines (universal_newlines (h @ [LF] @ pad)) = [h, pad]"
proof -
  from assms(2) have pad: "\<forall>c \<in> set pad. \<not> is_linebreak c"
    by (auto simp: is_linebreak_def HASH_def)
  from assms(1) pad have "CR \<notin> set (h @ [LF] @ pad)"
    by (auto simp: is_linebreak_def CR_def LF_def)
  then have "universal_newlines (h @ [LF] @ pad) = h @ LF # pad"
    by (simp add: universal_newlines_id)
  with splitlines_acc_line [OF assms(1), of "[]" pad] splitlines_acc_last [OF pad assms(3), of "[]"]
  show ?thesis by (simp add: splitlines_def)
qed

lemma comment_line: "prefix [HASH] ln \<Longrightarrow> rewrite_line U idx ln = Inr (ln, False)"
  by (simp add: rewrite_line_def)

lemma process_text_no_column:
  assumes "\<forall>c \<in> set pad. c = HASH" and "pad \<noteq> []"
  shows "process_text latin1 (universal_newlines (lit ''KEY;TEXT'' @ [LF] @ pad))
           = Inr ((IGNORADO, 0), None)"
proof -
  have h: "\<forall>c \<in> set (lit ''KEY;TEXT''). \<not> is_linebreak c"
    by (rule plain_lit) (simp add: lit_def)
  have "detect_spanish_header latin1 (split_all SEMI (lit ''KEY;TEXT'')) = None"
    by (simp add: eval_defs detect_spanish_header_def named_spanish_def strip_def)
  with lines_of_example [OF h assms] show ?thesis by (simp add: process_text_def)
qed

lemma process_text_translated:
  assumes "\<forall>c \<in> set pad. c = HASH" and "pad \<noteq> []"
  shows "process_text latin1
           (universal_newlines (lit ''KEY;SPANISH'' @ [LF] @ lit ''k;Rey'' @ [LF] @ pad))
           = Inr ((TRADUZIDO, 1),
                  Some (lit ''KEY;SPANISH'' @ [LF] @ lit ''k;Rei'' @ [LF] @ pad @ [LF]))"
proof -
  let ?h = "lit ''KEY;SPANISH'' @ [LF] @ lit ''k;Rey''"
  have h: "\<forall>c \<in> set ?h. c \<noteq> CR"
    by (simp add: lit_def LF_def CR_def)
  from assms(1) have pad: "\<forall>c \<in> set pad. \<not> is_linebreak c"
    by (auto simp: is_linebreak_def HASH_def)
  from h pad have "CR \<notin> set (?h @ [LF] @ pad)"
    by (auto simp: is_linebreak_def CR_def LF_def)
  then have un: "universal_newlines (lit ''KEY;SPANISH'' @ [LF] @ lit ''k;Rey'' @ [LF] @ pad)
                   = lit ''KEY;SPANISH'' @ LF # lit ''k;Rey'' @ LF # pad"
    by (simp add: universal_newlines_id)
  have a: "\<forall>c \<in> set (lit ''KEY;SPANISH''). \<not> is_linebreak c"
    and b: "\<forall>c \<in> set (lit ''k;Rey''). \<not> is_linebreak c"
    by (rule plain_lit, simp add: lit_def)+
  have lines: "splitlines (lit ''KEY;SPANISH'' @ LF # lit ''k;Rey'' @ LF # pad)
                 = [lit ''KEY;SPANISH'', lit ''k;Rey'', pad]"
    unfolding splitlines_def
    by (simp only: splitlines_acc_line [OF a] splitlines_acc_line [OF b]
          splitlines_acc_last [OF pad assms(2)] rev.simps append_Nil)
  have idx: "detect_spanish_header latin1 (split_all SEMI (lit ''KEY;SPANISH'')) = Some 1"
    by (simp add: eval_defs detect_spanish_header_def named_spanish_def strip_def)
  have l1: "rewrite_line latin1 (Suc 0) (lit ''k;Rey'') = Inr (lit ''k;Rei'', True)"
    by (simp add: eval_defs)
  from assms have "prefix [HASH] pad" by (cases pad) auto
  then have l2: "rewrite_line latin1 (Suc 0) pad = Inr (pad, False)" by (rule comment_line)
  have "process_text latin1 (lit ''KEY;SPANISH'' @ LF # lit ''k;Rey'' @ LF # pad)
          = Inr ((TRADUZIDO, 1),
                 Some (lit ''KEY;SPANISH'' @ [LF] @ lit ''k;Rei'' @ [LF] @ pad @ [LF]))"
    by (simp add: process_text_def lines idx l1 l2)
  then show ?thesis by (simp only: un)
qed


lemma hash_padding: "0 < n \<Longrightarrow> (\<forall>c \<in> set (replicate n HASH). c = HASH) \<and> replicate n HASH \<noteq> []"
  by auto

theorem size_gate_strict_witness:
  "distinct (map fst ex_dir)
   \<and> map_of ex_dir (lit ''small.csv'') = Some ex_small
   \<and> suffix (lit ''.csv'') (lit ''small.csv'') \<and> st_size ex_small \<le> 10240
   \<and> map_of ex_dir (lit ''big.csv'') = Some ex_big
   \<and> suffix (lit ''.csv'') (lit ''big.csv'') \<and> 10241 \<le> st_size ex_big
   \<and> (\<exists>d' results. main latin1 ex_dir = Inr (d', results)
         \<and> lit ''small.csv'' \<notin> fst ` set results
         \<and> map_of d' (lit ''small.csv'') = Some ex_small
         \<and> (lit ''big.csv'', lit ''SCRIPT'', TRADUZIDO) \<in> set results
         \<and> map_of d' (lit ''big.csv'')
             = Some \<lparr> st_size = 10242,
                      content = lit ''KEY;SPANISH'' @ [LF] @ lit ''k;Rei'' @ [LF]
                                @ replicate 10223 HASH @ [LF] \<rparr>)"
proof -
  have dist: "distinct (map fst ex_dir)"
    and small: "map_of ex_dir (lit ''small.csv'') = Some ex_small"
    and big: "map_of ex_dir (lit ''big.csv'') = Some ex_big"
    and csv: "suffix (lit ''.csv'') (lit ''small.csv'')" "suffix (lit ''.csv'') (lit ''big.csv'')"
    by (simp_all add: ex_dir_def lit_def suffix_to_prefix)
  have sizes: "st_size ex_small \<le> 10240" "10241 \<le> st_size ex_big"
    by (simp_all add: ex_small_def ex_big_def)
  from size_gate_strict [OF dist small csv(1), of latin1] sizes(1)
  obtain d' results where run: "main latin1 ex_dir = Inr (d', results)"
    and skipped: "lit ''small.csv'' \<notin> fst ` set results"
                 "map_of d' (lit ''small.csv'') = Some ex_small"
    by blast
  from size_gate_strict [OF dist big csv(2), of latin1] sizes(2) run
  obtain st n w
    where pt: "process_text latin1 (universal_newlines (content ex_big)) = Inr ((st, n), w)"
      and logged: "(lit ''big.csv'', lit ''SCRIPT'', st) \<in> set results"
      and after: "map_of d' (lit ''big.csv'')
                    = Some (case w of
                              None \<Rightarrow> ex_big
                            | Some s \<Rightarrow> \<lparr> st_size = sum_list (map utf8_len s), content = s \<rparr>)"
    by auto
  have pad: "\<forall>c \<in> set (replicate 10223 HASH). c = HASH" "replicate 10223 HASH \<noteq> []"
    using hash_padding [of 10223] by simp_all
  have "content ex_big
          = lit ''KEY;SPANISH'' @ [LF] @ lit ''k;Rey'' @ [LF] @ replicate 10223 HASH"
    by (simp only: ex_big_def fdata.simps)
  with pt process_text_translated [OF pad]
  have st: "st = TRADUZIDO"
    and w: "w = Some (lit ''KEY;SPANISH'' @ [LF] @ lit ''k;Rei'' @ [LF]
                      @ replicate 10223 HASH @ [LF])"
    by simp_all
  have size: "sum_list (map utf8_len (lit ''KEY;SPANISH'' @ [LF] @ lit ''k;Rei'' @ [LF]
                                     @ replicate 10223 HASH @ [LF])) = 10242"
    by (simp add: lit_def LF_def HASH_def utf8_len_def sum_list_replicate)
  from after w size
  have "map_of d' (lit ''big.csv'')
          = Some \<lparr> st_size = 10242,
                   content = lit ''KEY;SPANISH'' @ [LF] @ lit ''k;Rei'' @ [LF]
                             @ replicate 10223 HASH @ [LF] \<rparr>"
    by (simp only: option.case)
  with dist small big csv sizes run skipped logged st show ?thesis by blast
qed

text \<open>
  C3, as the specification states it, fails: a file of 10241 bytes whose header has no
  column named \<^verbatim>\<open>SPANISH\<close> and fewer than six columns gets the log line
  \<^verbatim>\<open>plain.csv;SCRIPT;IGNORADO\<close>.
\<close>

theorem column_miss_is_logged:
  "large_threshold < st_size ex_no_column
   \<and> splitlines (universal_newlines (content ex_no_column))
       = [lit ''KEY;TEXT'', replicate 10232 HASH]
   \<and> detect_spanish_header latin1 (split_all SEMI (lit ''KEY;TEXT'')) = None
   \<and> main latin1 ex_dir_no_column
       = Inr (ex_dir_no_column
                @ [(LOG_FILE_name,
                    \<lparr> st_size = 26, content = lit ''plain.csv;SCRIPT;IGNORADO'' @ [LF] \<rparr>)],
              [(lit ''plain.csv'', lit ''SCRIPT'', IGNORADO)])"
proof -
  have pad: "\<forall>c \<in> set (replicate 10232 HASH). c = HASH" "replicate 10232 HASH \<noteq> []"
    using hash_padding [of 10232] by simp_all
  have c: "content ex_no_column = lit ''KEY;TEXT'' @ [LF] @ replicate 10232 HASH"
    by (simp only: ex_no_column_def fdata.simps)
  have h: "\<forall>c \<in> set (lit ''KEY;TEXT''). \<not> is_linebreak c"
    by (rule plain_lit) (simp add: lit_def)
  have lines: "splitlines (universal_newlines (content ex_no_column))
                 = [lit ''KEY;TEXT'', replicate 10232 HASH]"
    by (simp only: c lines_of_example [OF h pad])
  have none: "detect_spanish_header latin1 (split_all SEMI (lit ''KEY;TEXT'')) = None"
    by (simp add: eval_defs detect_spanish_header_def named_spanish_def strip_def)
  have pt: "process_text latin1 (universal_newlines (content ex_no_column))
              = Inr ((IGNORADO, 0), None)"
    by (simp only: c process_text_no_column [OF pad])
  have g: "sort (glob_csv ex_dir_no_column) = [lit ''plain.csv'']"
    by (simp add: glob_csv_def ex_dir_no_column_def suffix_to_prefix lit_def)
  have nl: "lit ''plain.csv'' \<noteq> LOG_FILE_name"
    by (simp add: lit_def LOG_FILE_name_def)
  have lk: "map_of ex_dir_no_column (lit ''plain.csv'') = Some ex_no_column"
    by (simp add: ex_dir_no_column_def)
  have sz: "large_threshold < st_size ex_no_column"
    by (simp add: ex_no_column_def large_threshold_def)
  have pf: "process_file latin1 ex_dir_no_column (lit ''plain.csv'')
              = Inr ((IGNORADO, 0), ex_dir_no_column)"
    by (simp add: process_file_def lk pt)
  have loop: "main_loop latin1 [lit ''plain.csv''] (ex_dir_no_column, [])
                = Inr (ex_dir_no_column, [(lit ''plain.csv'', lit ''SCRIPT'', IGNORADO)])"
    using sz by (simp add: nl lk pf)
  have wr: "write_text ex_dir_no_column LOG_FILE_name
              (log_text [(lit ''plain.csv'', lit ''SCRIPT'', IGNORADO)])
              = ex_dir_no_column
                  @ [(LOG_FILE_name,
                      \<lparr> st_size = 26, content = lit ''plain.csv;SCRIPT;IGNORADO'' @ [LF] \<rparr>)]"
    by (simp add: write_text_def ex_dir_no_column_def log_text_def status_name_def lit_def
          LOG_FILE_name_def utf8_len_def SEMI_def LF_def)
  have "main latin1 ex_dir_no_column
          = Inr (ex_dir_no_column
                   @ [(LOG_FILE_name,
                       \<lparr> st_size = 26, content = lit ''plain.csv;SCRIPT;IGNORADO'' @ [LF] \<rparr>)],
                 [(lit ''plain.csv'', lit ''SCRIPT'', IGNORADO)])"
    by (simp only: main_def g loop wr sum.case prod.case)
  with sz lines none show ?thesis by blast
qed

theorem log_line_for_every_file_past_the_size_gate_witness:
  "distinct (map fst ex_dir_no_column)
   \<and> map_of ex_dir_no_column (lit ''plain.csv'') = Some ex_no_column
   \<and> suffix (lit ''.csv'') (lit ''plain.csv'')
   \<and> large_threshold < st_size ex_no_column
   \<and> splitlines (universal_newlines (content ex_no_column))
       = lit ''KEY;TEXT'' # [replicate 10232 HASH]
   \<and> detect_spanish_header latin1 (split_all SEMI (lit ''KEY;TEXT'')) = None
   \<and> (\<exists>d' results. main latin1 ex_dir_no_column = Inr (d', results)
         \<and> map fst results = [lit ''plain.csv'']
         \<and> map_option content (map_of d' LOG_FILE_name) = Some (log_text results)
         \<and> (lit ''plain.csv'', lit ''SCRIPT'', IGNORADO) \<in> set results
         \<and> map_of d' (lit ''plain.csv'') = Some ex_no_column)"
proof -
  have pad: "\<forall>c \<in> set (replicate 10232 HASH). c = HASH" "replicate 10232 HASH \<noteq> []"
    using hash_padding [of 10232] by simp_all
  have c: "content ex_no_column = lit ''KEY;TEXT'' @ [LF] @ replicate 10232 HASH"
    by (simp only: ex_no_column_def fdata.simps)
  have h: "\<forall>c \<in> set (lit ''KEY;TEXT''). \<not> is_linebreak c"
    by (rule plain_lit) (simp add: lit_def)
  have lines: "splitlines (universal_newlines (content ex_no_column))
                 = lit ''KEY;TEXT'' # [replicate 10232 HASH]"
    by (simp only: c lines_of_example [OF h pad])
  have none: "detect_spanish_header latin1 (split_all SEMI (lit ''KEY;TEXT'')) = None"
    by (simp add: eval_defs detect_spanish_header_def named_spanish_def strip_def)
  have dist: "distinct (map fst ex_dir_no_column)"
    and lk: "map_of ex_dir_no_column (lit ''plain.csv'') = Some ex_no_column"
    and csv: "suffix (lit ''.csv'') (lit ''plain.csv'')"
    by (simp_all add: ex_dir_no_column_def lit_def suffix_to_prefix)
  have sz: "large_threshold < st_size ex_no_column"
    by (simp add: ex_no_column_def large_threshold_def)
  have g: "filter (passes_size_gate ex_dir_no_column) (sort (glob_csv ex_dir_no_column))
             = [lit ''plain.csv'']"
    using sz lk
    by (simp add: glob_csv_def passes_size_gate_def ex_dir_no_column_def suffix_to_prefix lit_def)
  from log_line_for_every_file_past_the_size_gate [OF dist, of latin1]
  obtain d' results where run: "main latin1 ex_dir_no_column = Inr (d', results)"
    and names: "map fst results
                  = filter (passes_size_gate ex_dir_no_column) (sort (glob_csv ex_dir_no_column))"
    and log: "map_option content (map_of d' LOG_FILE_name) = Some (log_text results)"
    and miss: "\<forall>path f header data.
                 map_of ex_dir_no_column path = Some f \<and> suffix (lit ''.csv'') path
                 \<and> large_threshold < st_size f
                 \<and> splitlines (universal_newlines (content f)) = header # data
                 \<and> detect_spanish_header latin1 (split_all SEMI header) = None
                 \<longrightarrow> (path, lit ''SCRIPT'', IGNORADO) \<in> set results
                     \<and> map_of d' path = Some f"
    by blast
  from miss lk csv sz lines none
  have "(lit ''plain.csv'', lit ''SCRIPT'', IGNORADO) \<in> set results
        \<and> map_of d' (lit ''plain.csv'') = Some ex_no_column"
    by blast
  with dist lk csv sz lines none run names g log show ?thesis by auto
qed

section \<open>The frame of the Line Rewriter\<close>

text \<open>
  The Line Rewriter in terms of the columns of the line (\<open>split_all SEMI ln\<close>): a line
  with too few columns is kept; otherwise the target cell is translated and the line is
  put together again from the columns to the left, the new cell and the columns to the
  right. Unless the target index is 1 and the first column is empty, the result is the
  line with the target column replaced and every other column and semicolon in place
  (\<open>rewrite_line_frame\<close>).
\<close>

lemma split_all_nonempty: "split_all sep s \<noteq> []"
  by (induction s) (auto split: list.splits)

lemma join_Cons_head: "join sep ((c # p) # ps) = c # join sep (p # ps)"
  by (cases ps) simp_all

lemma join_split_all: "join [sep] (split_all sep s) = s"
proof (induction s)
  case Nil
  show ?case by simp
next
  case (Cons c s)
  obtain p ps where A: "split_all sep s = p # ps"
    using split_all_nonempty [of sep s] by (cases "split_all sep s") auto
  with Cons show ?case by (auto simp: join_Cons_head)
qed

lemma split_all_no_sep: "p \<in> set (split_all sep s) \<Longrightarrow> sep \<notin> set p"
proof (induction s arbitrary: p)
  case Nil
  then show ?case by simp
next
  case (Cons c s)
  obtain q qs where A: "split_all sep s = q # qs"
    using split_all_nonempty [of sep s] by (cases "split_all sep s") auto
  from Cons.IH [of q] A have q: "sep \<notin> set q" by simp
  from Cons.IH A have qs: "\<And>x. x \<in> set qs \<Longrightarrow> sep \<notin> set x" by simp
  show ?case
  proof (cases "c = sep")
    case True
    with Cons.prems A q qs show ?thesis by auto
  next
    case False
    with Cons.prems A q qs show ?thesis by auto
  qed
qed

lemma split_max_split_all:
  "split_max sep n s =
     (if n < length (split_all sep s)
      then take n (split_all sep s) @ [join [sep] (drop n (split_all sep s))]
      else split_all sep s)"
proof (induction sep n s rule: split_max.induct)
  case (1 sep s)
  show ?case by (simp add: split_all_nonempty join_split_all)
next
  case (2 sep n)
  show ?case by simp
next
  case (3 sep n c s)
  obtain p ps where A: "split_all sep s = p # ps"
    using split_all_nonempty [of sep s] by (cases "split_all sep s") auto
  show ?case
  proof (cases "c = sep")
    case True
    with 3 show ?thesis by simp
  next
    case False
    with 3(2) A have IH: "split_max sep (Suc n) s =
        (if n < length ps then p # take n ps @ [join [sep] (drop n ps)] else p # ps)"
      by simp
    with False A show ?thesis by simp
  qed
qed


lemma join_Cons: "qs \<noteq> [] \<Longrightarrow> join [sep] (q # qs) = q @ sep # join [sep] qs"
  by (cases qs) simp_all

lemma tail_columns:
  "qs \<noteq> [] \<Longrightarrow> sep # join [sep] qs = concat (map ((#) sep) qs)"
proof (induction qs)
  case Nil
  then show ?case by simp
next
  case (Cons q qs)
  show ?case
  proof (cases "qs = []")
    case True
    then show ?thesis by simp
  next
    case False
    with Cons.IH have "sep # join [sep] qs = concat (map ((#) sep) qs)" by simp
    with False show ?thesis by (simp add: join_Cons)
  qed
qed

lemma split_max_once_at:
  "sep \<notin> set q \<Longrightarrow> split_max sep (Suc 0) (q @ sep # t) = [q, t]"
  by (induction q) auto

lemma rewrite_line_short:
  assumes "length (split_all SEMI ln) \<le> idx"
  shows "rewrite_line U idx ln = Inr (ln, False)"
  using assms by (simp add: rewrite_line_def split_max_split_all Let_def)

lemma rewrite_line_columns:
  assumes "\<not> prefix [HASH] ln" and "idx < length (split_all SEMI ln)"
  shows "\<exists>cell' st. translate_text U (split_all SEMI ln ! idx) = Inr (cell', st)
           \<and> rewrite_line U idx ln
               = Inr ((if join [SEMI] (take idx (split_all SEMI ln)) = [] then []
                       else join [SEMI] (take idx (split_all SEMI ln)) @ [SEMI])
                      @ cell' @ concat (map ((#) SEMI) (drop (Suc idx) (split_all SEMI ln))),
                      st = TRADUZIDO)"
proof -
  let ?A = "split_all SEMI ln"
  let ?q = "?A ! idx" and ?qs = "drop (Suc idx) ?A"
  let ?left = "join [SEMI] (take idx ?A)"
  let ?rest = "join [SEMI] (drop idx ?A)"
  from assms(2) have parts: "split_max SEMI idx ln = take idx ?A @ [?rest]"
    by (simp add: split_max_split_all)
  from assms(2) have len: "length (take idx ?A) = idx" by simp
  from parts len have n: "\<not> length (split_max SEMI idx ln) < idx + 1" by simp
  from parts len have left: "take idx (split_max SEMI idx ln) = take idx ?A" by simp
  from parts len have rest: "split_max SEMI idx ln ! idx = ?rest"
    by (simp add: nth_append)
  from assms(2) have drop: "drop idx ?A = ?q # ?qs" by (simp add: Cons_nth_drop_Suc)
  from assms(2) have "?q \<in> set ?A" by (rule nth_mem)
  then have q: "SEMI \<notin> set ?q" by (rule split_all_no_sep)
  from translate_text_total obtain cell' st
    where tt: "translate_text U ?q = Inr (cell', st)" by blast
  have "rewrite_line U idx ln
          = Inr ((if ?left = [] then [] else ?left @ [SEMI])
                 @ cell' @ concat (map ((#) SEMI) ?qs), st = TRADUZIDO)"
  proof (cases "?qs = []")
    case True
    with drop have r: "?rest = ?q" by simp
    with q have "SEMI \<notin> set ?rest" by simp
    with assms(1) n left rest r tt True show ?thesis
      by (simp add: rewrite_line_def Let_def)
  next
    case False
    with drop have r: "?rest = ?q @ SEMI # join [SEMI] ?qs" by (simp add: join_Cons)
    then have semi: "SEMI \<in> set ?rest" by simp
    from r q have sp: "split_max SEMI 1 ?rest = [?q, join [SEMI] ?qs]"
      by (simp add: split_max_once_at)
    from False have right: "SEMI # join [SEMI] ?qs = concat (map ((#) SEMI) ?qs)"
      by (rule tail_columns)
    from assms(1) n left rest semi sp tt right show ?thesis
      by (simp add: rewrite_line_def Let_def)
  qed
  with tt show ?thesis by blast
qed

lemma join_snoc: "ps \<noteq> [] \<Longrightarrow> join [sep] (ps @ [x]) = join [sep] ps @ sep # x"
proof (induction ps)
  case Nil
  then show ?case by simp
next
  case (Cons p ps)
  show ?case
  proof (cases "ps = []")
    case True
    then show ?thesis by simp
  next
    case False
    with Cons.IH show ?thesis by (simp add: join_Cons)
  qed
qed

lemma join_append:
  "qs \<noteq> [] \<Longrightarrow> join [sep] (ps @ qs) = 
     (if ps = [] then [] else join [sep] ps @ [sep]) @ join [sep] qs"
proof (induction ps)
  case Nil
  show ?case by simp
next
  case (Cons p ps)
  from Cons.prems have ne: "ps @ qs \<noteq> []" by simp
  from Cons show ?case
    by (cases "ps = []") (simp_all add: join_Cons [OF ne] join_Cons)
qed

lemma join_update:
  assumes "idx < length A"
  shows "join [sep] (A[idx := x])
           = (if idx = 0 then [] else join [sep] (take idx A) @ [sep])
             @ x @ concat (map ((#) sep) (drop (Suc idx) A))"
proof -
  from assms have "A[idx := x] = take idx A @ (x # drop (Suc idx) A)"
    by (simp add: upd_conv_take_nth_drop)
  moreover have "join [sep] (x # drop (Suc idx) A)
                   = x @ concat (map ((#) sep) (drop (Suc idx) A))"
    by (cases "drop (Suc idx) A = []") (simp_all add: join_Cons tail_columns)
  moreover from assms have "take idx A = [] \<longleftrightarrow> idx = 0" by (cases A) auto
  ultimately show ?thesis by (simp add: join_append)
qed

lemma left_empty_iff:
  assumes "idx < length A"
  shows "join [sep] (take idx A) = [] \<longleftrightarrow> idx = 0 \<or> (idx = 1 \<and> A ! 0 = [])"
proof (cases idx)
  case 0
  then show ?thesis by simp
next
  case (Suc k)
  with assms obtain a A' where A: "A = a # A'" by (cases A) auto
  show ?thesis
  proof (cases k)
    case 0
    with Suc A show ?thesis by simp
  next
    case (Suc j)
    with \<open>idx = Suc k\<close> assms A obtain b A'' where "A' = b # A''" by (cases A') auto
    with A Suc \<open>idx = Suc k\<close> show ?thesis by simp
  qed
qed

lemma rewrite_line_frame:
  assumes "\<not> prefix [HASH] ln" and "idx < length (split_all SEMI ln)"
    and "\<not> (idx = 1 \<and> split_all SEMI ln ! 0 = [])"
  shows "\<exists>cell' st. translate_text U (split_all SEMI ln ! idx) = Inr (cell', st)
           \<and> rewrite_line U idx ln
               = Inr (join [SEMI] ((split_all SEMI ln)[idx := cell']), st = TRADUZIDO)"
proof -
  from rewrite_line_columns [OF assms(1,2)] obtain cell' st
    where tt: "translate_text U (split_all SEMI ln ! idx) = Inr (cell', st)"
      and rl: "rewrite_line U idx ln
                 = Inr ((if join [SEMI] (take idx (split_all SEMI ln)) = [] then []
                         else join [SEMI] (take idx (split_all SEMI ln)) @ [SEMI])
                        @ cell' @ concat (map ((#) SEMI) (drop (Suc idx) (split_all SEMI ln))),
                        st = TRADUZIDO)"
    by blast
  from left_empty_iff [OF assms(2), of SEMI] assms(3)
  have "join [SEMI] (take idx (split_all SEMI ln)) = [] \<longleftrightarrow> idx = 0" by auto
  with rl join_update [OF assms(2), of SEMI cell']
  have "rewrite_line U idx ln
          = Inr (join [SEMI] ((split_all SEMI ln)[idx := cell']), st = TRADUZIDO)"
    by simp
  with tt show ?thesis by blast
qed

text \<open>
  C1. In a data line, the columns other than the target column and the semicolons
  outside the target cell stay as they are. The code does not keep this when the target
  column has index 1 and the first column of the line is empty: \<^verbatim>\<open>left\<close> is then the
  empty string, the test \<^verbatim>\<open>if left:\<close> takes it for "no column to the left", and the
  semicolon that closes the first column is dropped. With the header
  \<^verbatim>\<open>KEY;SPANISH;X\<close> the line \<^verbatim>\<open>;Hola;x\<close> is written back as \<^verbatim>\<open>Hola;x\<close>: the cell
  \<^verbatim>\<open>Hola\<close> is unchanged, but it has moved to column 0 and \<^verbatim>\<open>x\<close> to column 1.
\<close>

theorem process_text_drops_empty_first_column:
  "process_text latin1 (lit ''KEY;SPANISH;X'' @ [LF] @ lit '';Hola;x'' @ [LF])
     = Inr ((TRADUZIDO, 0), Some (lit ''KEY;SPANISH;X'' @ [LF] @ lit ''Hola;x'' @ [LF]))"
  by (simp add: eval_defs process_text_def splitlines_def is_linebreak_def
        detect_spanish_header_def named_spanish_def strip_def)

end
